theory Spec2Isabelle
  imports Main "HOL-Library.AList"
begin

section \<open>Queue registry\<close>

text \<open>
  The class \<open>QueueRegistryImpl\<close> (src/src/middleware.ts, lines 43 to 151) keeps the
  configuration it was built from, a \<open>Map\<close> from queue name to the managed queue created for
  it, and a \<open>closed\<close> flag. The queue and worker classes come from the engine package and
  are not part of the repository: a constructor call is modelled as the allocation of the
  next reference in a heap of constructed objects, and a \<open>close()\<close> call as an entry in a
  log of the references it was issued on. A \<open>close()\<close> call returns a promise, which
  fulfils or rejects later.

  The \<open>queues\<close> object of the configuration is the list of its own entries, in the
  order \<open>Object.keys\<close> gives them, and every entry holds a \<open>QueueConfig\<close> object, as the
  type \<open>Record<string, QueueConfig>\<close> says. A processor is a function of the caller; the
  configuration records whether there is one.
\<close>

type_synonym ref = nat

datatype ConnectionOptions = ConnectionOptions (addresses: "(string \<times> nat) list")

record QueueConfig =
  processor :: bool
  concurrency :: "nat option"
  workerOpts :: "(string \<times> string) list"

record GlideMQConfig =
  connection :: "ConnectionOptions option"
  queues :: "(string \<times> QueueConfig) list"
  prefix :: "string option"
  testing :: "bool option"

text \<open>
  The objects the registry constructs: \<open>new Queue(name, {connection, prefix})\<close>,
  \<open>new Worker(name, processor, {connection, prefix, concurrency, ...workerOpts})\<close>,
  \<open>new TestQueue(name)\<close>, \<open>new TestWorker(queue, processor, {concurrency})\<close> and the
  object literal \<open>{ queue, worker }\<close> that \<open>get\<close> hands out.
\<close>

datatype object =
    Queue string "ConnectionOptions option" "string option"
  | Worker string "ConnectionOptions option" "string option" nat "(string \<times> string) list"
  | TestQueue string
  | TestWorker ref nat
  | Managed ref "ref option"

text \<open>
  A \<open>ManagedQueue\<close> value is a reference to a \<open>{ queue, worker }\<close> object; \<open>ident\<close> is
  that reference, so two handles are the identical instance exactly when they are equal.
\<close>

record ManagedQueue =
  ident :: ref
  queue :: ref
  worker :: "ref option"

datatype error =
    ConfigurationError
  | RegistryClosedError
  | QueueNotConfiguredError string

text \<open>The source throws plain \<open>Error\<close> objects; these are their messages.\<close>

fun message :: "error \<Rightarrow> string" where
  "message ConfigurationError = ''GlideMQ: connection is required when testing mode is disabled''"
| "message RegistryClosedError = ''GlideMQ: registry is closed''"
| "message (QueueNotConfiguredError name) = ''GlideMQ: queue \"'' @ name @ ''\" is not configured''"

text \<open>
  \<open>awaiting\<close> is the program counter of \<open>closeAll\<close>: it holds while a run of
  \<open>closeAll\<close> is suspended at \<open>await Promise.allSettled(closeOps)\<close>.
\<close>

record Registry =
  config :: GlideMQConfig
  managed :: "(string \<times> ManagedQueue) list"
  closed :: bool
  heap :: "object list"
  close_calls :: "ref list"
  awaiting :: bool

definition truthy :: "bool option \<Rightarrow> bool" where
  "truthy b = (b = Some True)"

definition QueueRegistryImpl :: "GlideMQConfig \<Rightarrow> error + Registry" where
  "QueueRegistryImpl cfg =
     (if \<not> truthy (testing cfg) \<and> connection cfg = None then Inl ConfigurationError
      else Inr \<lparr>config = cfg, managed = [], closed = False, heap = [], close_calls = [],
                awaiting = False\<rparr>)"

text \<open>
  The \<open>queues\<close> object is an ordinary object, so besides its own entries it has the
  members that every such object inherits from \<open>Object.prototype\<close>. The expression
  \<open>queues[name]\<close> yields the own entry when there is one and else the inherited member
  of that name; \<open>name in queues\<close> holds in both cases. Every inherited member is a
  function or an object, hence truthy, and has no \<open>processor\<close>, \<open>concurrency\<close> or
  \<open>workerOpts\<close> of its own: read as a \<open>QueueConfig\<close> it is the configuration with none
  of the three.
\<close>

definition Object_prototype :: "string list" where
  "Object_prototype =
     [''constructor'', ''__defineGetter__'', ''__defineSetter__'', ''hasOwnProperty'',
      ''__lookupGetter__'', ''__lookupSetter__'', ''isPrototypeOf'', ''propertyIsEnumerable'',
      ''toString'', ''valueOf'', ''__proto__'', ''toLocaleString'']"

definition inherited_member :: QueueConfig where
  "inherited_member = \<lparr>processor = False, concurrency = None, workerOpts = []\<rparr>"

definition property :: "(string \<times> QueueConfig) list \<Rightarrow> string \<Rightarrow> QueueConfig option" where
  "property obj name =
     (case map_of obj name of
        Some v \<Rightarrow> Some v
      | None \<Rightarrow> if name \<in> set Object_prototype then Some inherited_member else None)"

definition has :: "string \<Rightarrow> Registry \<Rightarrow> bool" where
  "has name s = (map_of (queues (config s)) name \<noteq> None \<or> name \<in> set Object_prototype)"

definition names :: "Registry \<Rightarrow> string list" where
  "names s = map fst (queues (config s))"

definition getConnection :: "Registry \<Rightarrow> ConnectionOptions option" where
  "getConnection s = connection (config s)"

definition getPrefix :: "Registry \<Rightarrow> string option" where
  "getPrefix s = prefix (config s)"

definition alloc :: "object \<Rightarrow> Registry \<Rightarrow> ref \<times> Registry" where
  "alloc obj s = (length (heap s), s\<lparr>heap := heap s @ [obj]\<rparr>)"

definition createEntry :: "string \<Rightarrow> QueueConfig \<Rightarrow> Registry \<Rightarrow> ManagedQueue \<times> Registry" where
  "createEntry name qc s =
     (let conn = connection (config s);
          pre = prefix (config s);
          (q, s1) = alloc (Queue name conn pre) s;
          (w, s2) = (if processor qc
                     then (let (r, s') = alloc (Worker name conn pre
                                   (case concurrency qc of None \<Rightarrow> 1 | Some k \<Rightarrow> k)
                                   (workerOpts qc)) s1
                           in (Some r, s'))
                     else (None, s1));
          (e, s3) = alloc (Managed q w) s2
      in (\<lparr>ident = e, queue = q, worker = w\<rparr>, s3))"

definition createTestEntry :: "string \<Rightarrow> QueueConfig \<Rightarrow> Registry \<Rightarrow> ManagedQueue \<times> Registry" where
  "createTestEntry name qc s =
     (let (q, s1) = alloc (TestQueue name) s;
          (w, s2) = (if processor qc
                     then (let (r, s') = alloc (TestWorker q
                                   (case concurrency qc of None \<Rightarrow> 1 | Some k \<Rightarrow> k)) s1
                           in (Some r, s'))
                     else (None, s1));
          (e, s3) = alloc (Managed q w) s2
      in (\<lparr>ident = e, queue = q, worker = w\<rparr>, s3))"

text \<open>
  \<open>get\<close>: the closed check comes first, then the lookup in \<open>managed\<close>, then
  \<open>this.config.queues[name]\<close> and the test of its truthiness, then the creation and
  \<open>managed.set\<close>.
\<close>

definition get :: "string \<Rightarrow> Registry \<Rightarrow> (error + ManagedQueue) \<times> Registry" where
  "get name s =
     (if closed s then (Inl RegistryClosedError, s)
      else case map_of (managed s) name of
             Some existing \<Rightarrow> (Inr existing, s)
           | None \<Rightarrow>
               (case property (queues (config s)) name of
                  None \<Rightarrow> (Inl (QueueNotConfiguredError name), s)
                | Some queueConfig \<Rightarrow>
                    (let (entry, s') = (if truthy (testing (config s))
                                        then createTestEntry name queueConfig s
                                        else createEntry name queueConfig s)
                     in (Inr entry, s'\<lparr>managed := AList.update name entry (managed s')\<rparr>))))"

text \<open>
  \<open>closeAll\<close> is an async function with one suspension point. \<open>closeAll_call\<close> is the part
  that runs when it is called: the early return, or setting the flag and issuing the close
  calls (the worker's first, then the queue's, for every entry in insertion order).
  \<open>closeAll_resume\<close> is the part that runs once every close promise has settled;
  \<open>Promise.allSettled\<close> resolves whatever the outcomes are.
\<close>

datatype promise = Pending | Resolved | Rejected error

datatype settled = Fulfilled | Failed string

fun closeOps :: "(string \<times> ManagedQueue) list \<Rightarrow> ref list" where
  "closeOps [] = []"
| "closeOps ((name, m) # rest) =
     (case worker m of Some w \<Rightarrow> [w] | None \<Rightarrow> []) @ [queue m] @ closeOps rest"

definition closeAll_call :: "Registry \<Rightarrow> promise \<times> Registry" where
  "closeAll_call s =
     (if closed s then (Resolved, s)
      else (Pending, s\<lparr>closed := True,
                       close_calls := close_calls s @ closeOps (managed s),
                       awaiting := True\<rparr>))"

definition closeAll_resume :: "settled list \<Rightarrow> Registry \<Rightarrow> promise \<times> Registry" where
  "closeAll_resume outcomes s =
     (if awaiting s then (Resolved, s\<lparr>managed := [], awaiting := False\<rparr>) else (Resolved, s))"

text \<open>A run of \<open>closeAll\<close> from the call to the resolution of its promise.\<close>

definition closeAll :: "settled list \<Rightarrow> Registry \<Rightarrow> promise \<times> Registry" where
  "closeAll outcomes s =
     (case closeAll_call s of
        (Pending, s1) \<Rightarrow> closeAll_resume outcomes s1
      | (p, s1) \<Rightarrow> (p, s1))"

text \<open>
  The operations of the registry as seen by its callers, and the resumption of a suspended
  \<open>closeAll\<close> by the scheduler. The accessors change nothing.
\<close>

datatype op =
    Get string
  | Has string
  | Names
  | GetConnection
  | GetPrefix
  | CloseAll
  | Settle "settled list"

fun exec :: "op \<Rightarrow> Registry \<Rightarrow> Registry" where
  "exec (Get name) s = snd (get name s)"
| "exec (Has name) s = s"
| "exec Names s = s"
| "exec GetConnection s = s"
| "exec GetPrefix s = s"
| "exec CloseAll s = snd (closeAll_call s)"
| "exec (Settle outcomes) s = snd (closeAll_resume outcomes s)"

primrec run :: "op list \<Rightarrow> Registry \<Rightarrow> Registry" where
  "run [] s = s"
| "run (x # xs) s = run xs (exec x s)"

text \<open>The number of queue objects constructed for a name.\<close>

fun is_queue_for :: "string \<Rightarrow> object \<Rightarrow> bool" where
  "is_queue_for name (Queue n _ _) = (n = name)"
| "is_queue_for name (TestQueue n) = (n = name)"
| "is_queue_for name _ = False"

definition created :: "string \<Rightarrow> Registry \<Rightarrow> nat" where
  "created name s = length (filter (is_queue_for name) (heap s))"

section \<open>Subscription multiplexer\<close>

text \<open>
  The module-level \<open>subscriptions\<close> map of the events module (src/unnamed/part_001, lines
  141 to 180) holds, per queue name, the shared \<open>QueueEvents\<close> object and a reference
  count. \<open>QueueEvents\<close> is a class of the engine package: constructing one allocates the
  next reference and records the arguments it was built from, and \<open>close()\<close>, which
  returns a promise, is logged. The count is a JavaScript number that only ever moves by
  one; it is an \<open>int\<close> here. The \<open>Map\<close> is the list of its entries in insertion order.
\<close>

record EventSubscription =
  queueEvents :: ref
  refCount :: int

record QueueEventsArgs =
  qe_name :: string
  qe_connection :: ConnectionOptions
  qe_prefix :: "string option"

record Mux =
  subscriptions :: "(string \<times> EventSubscription) list"
  sources :: "QueueEventsArgs list"
  source_closes :: "ref list"

definition no_subscriptions :: Mux where
  "no_subscriptions = \<lparr>subscriptions = [], sources = [], source_closes = []\<rparr>"

definition acquireQueueEvents ::
  "string \<Rightarrow> ConnectionOptions \<Rightarrow> string option \<Rightarrow> Mux \<Rightarrow> ref \<times> Mux" where
  "acquireQueueEvents name connectionOpts pre m =
     (case map_of (subscriptions m) name of
        Some existing \<Rightarrow>
          (queueEvents existing,
           m\<lparr>subscriptions :=
                AList.update name (existing\<lparr>refCount := refCount existing + 1\<rparr>)
                  (subscriptions m)\<rparr>)
      | None \<Rightarrow>
          (let qe = length (sources m)
           in (qe,
               m\<lparr>sources := sources m @
                      [\<lparr>qe_name = name, qe_connection = connectionOpts, qe_prefix = pre\<rparr>],
                   subscriptions :=
                     AList.update name \<lparr>queueEvents = qe, refCount = 1\<rparr> (subscriptions m)\<rparr>)))"

definition releaseQueueEvents :: "string \<Rightarrow> Mux \<Rightarrow> Mux" where
  "releaseQueueEvents name m =
     (case map_of (subscriptions m) name of
        None \<Rightarrow> m
      | Some sub \<Rightarrow>
          (let sub' = sub\<lparr>refCount := refCount sub - 1\<rparr>
           in if refCount sub' \<le> 0
              then m\<lparr>source_closes := source_closes m @ [queueEvents sub'],
                      subscriptions := AList.delete name (subscriptions m)\<rparr>
              else m\<lparr>subscriptions := AList.update name sub' (subscriptions m)\<rparr>))"

datatype mux_op =
    Acquire string ConnectionOptions "string option"
  | Release string

fun mux_exec :: "mux_op \<Rightarrow> Mux \<Rightarrow> Mux" where
  "mux_exec (Acquire name c p) m = snd (acquireQueueEvents name c p m)"
| "mux_exec (Release name) m = releaseQueueEvents name m"

primrec mux_run :: "mux_op list \<Rightarrow> Mux \<Rightarrow> Mux" where
  "mux_run [] m = m"
| "mux_run (x # xs) m = mux_run xs (mux_exec x m)"

text \<open>The count of a name as an observer sees it: 0 when the map has no entry.\<close>

definition count_of :: "string \<Rightarrow> Mux \<Rightarrow> int" where
  "count_of name m = (case map_of (subscriptions m) name of None \<Rightarrow> 0 | Some e \<Rightarrow> refCount e)"

section \<open>Server-sent event frames\<close>

text \<open>
  A frame is the argument of one \<open>stream.writeSSE\<close> call: the event name, the data and
  the id. The data is \<open>JSON.stringify\<close> of an object; the object is kept as a value of
  \<open>payload\<close>: \<open>{...args, queue: name}\<close> for a forwarded engine event,
  \<open>{ time: Date.now() }\<close> for a heartbeat, \<open>{ queue, state, count, prev }\<close> for a change
  of a count. The id is \<open>String(eventId++)\<close>; the counter is a natural number, and
  \<open>decimal_string\<close> is \<open>String\<close> on a natural number.
\<close>

datatype payload =
    EventData string string
  | HeartbeatData nat
  | CountsData string string int int

record frame =
  event :: string
  data :: payload
  sse_id :: string

definition digit :: "nat \<Rightarrow> char" where
  "digit d = ''0123456789'' ! d"

fun decimal_string :: "nat \<Rightarrow> string" where
  "decimal_string n =
     (if n < 10 then [digit n] else decimal_string (n div 10) @ [digit (n mod 10)])"

definition ids_in_order :: "frame list \<Rightarrow> bool" where
  "ids_in_order fs = (map sse_id fs = map decimal_string [0..<length fs])"

text \<open>The number that a string of decimal digits denotes.\<close>

definition digit_value :: "char \<Rightarrow> nat" where
  "digit_value c = of_char c - 48"

definition id_value :: "string \<Rightarrow> nat" where
  "id_value cs = foldl (\<lambda>a c. 10 * a + digit_value c) 0 cs"

section \<open>Stream session, polling mode\<close>

text \<open>
  \<open>createTestingSSE\<close> (src/unnamed/part_001, lines 256 to 291). The counts object that
  \<open>queue.getJobCounts()\<close> resolves to is the list of its entries, in the order
  \<open>Object.entries\<close> gives them. \<open>p_written\<close> is the sequence of \<open>writeSSE\<close> calls the
  session has made, in call order.
\<close>

type_synonym counts = "(string \<times> int) list"

record PollSession =
  p_eventId :: nat
  lastCounts :: counts
  p_running :: bool
  p_written :: "frame list"

text \<open>
  What the environment does during one pass through the loop body: the result of the read
  (\<open>None\<close> when the promise rejects), whether the abort callback ran while the read was
  awaited, the values of \<open>eventId\<close> whose write rejects, whether the abort callback ran
  later in the pass, and whether the sleep resolves.
\<close>

record tick =
  read :: "counts option"
  abort_in_read :: bool
  failing :: "nat list"
  abort_later :: bool
  sleep_ok :: bool

datatype exit = ReadFailed | Aborted | WriteFailed | SleepFailed

definition initial_counts :: counts where
  "initial_counts =
     [(''waiting'', 0), (''active'', 0), (''completed'', 0), (''failed'', 0), (''delayed'', 0)]"

definition createTestingSSE ::
  "string \<Rightarrow> Registry \<Rightarrow> (error + ref \<times> PollSession) \<times> Registry" where
  "createTestingSSE name r =
     (case get name r of
        (Inl e, r') \<Rightarrow> (Inl e, r')
      | (Inr m, r') \<Rightarrow>
          (Inr (queue m,
                \<lparr>p_eventId = 0, lastCounts = initial_counts, p_running = True,
                 p_written = []\<rparr>), r'))"

text \<open>\<open>(lastCounts as any)[state] ?? 0\<close>: the baseline of a state, 0 when it has none.\<close>

definition previous :: "counts \<Rightarrow> string \<Rightarrow> int" where
  "previous base state = (case map_of base state of None \<Rightarrow> 0 | Some v \<Rightarrow> v)"

text \<open>
  The \<open>for\<close> loop over the entries of the counts just read. The result is \<open>False\<close> when a
  write rejected, which leaves the loop body through the \<open>catch\<close>.
\<close>

fun write_deltas :: "string \<Rightarrow> nat list \<Rightarrow> counts \<Rightarrow> PollSession \<Rightarrow> bool \<times> PollSession" where
  "write_deltas name bad [] s = (True, s)"
| "write_deltas name bad ((state, count) # rest) s =
     (let prev = previous (lastCounts s) state
      in if count \<noteq> prev
         then (let k = p_eventId s;
                   s' = s\<lparr>p_eventId := k + 1,
                          p_written := p_written s @
                            [\<lparr>event = ''counts'', data = CountsData name state count prev,
                              sse_id = decimal_string k\<rparr>]\<rparr>
               in if k \<in> set bad then (False, s') else write_deltas name bad rest s')
         else write_deltas name bad rest s)"

text \<open>One pass through the body of \<open>while (running)\<close>; \<open>None\<close> means the loop goes on.\<close>

definition poll_tick :: "string \<Rightarrow> tick \<Rightarrow> PollSession \<Rightarrow> exit option \<times> PollSession" where
  "poll_tick name t s =
     (let s1 = s\<lparr>p_running := p_running s \<and> \<not> abort_in_read t\<rparr>
      in case read t of
           None \<Rightarrow> (Some ReadFailed, s1)
         | Some cs \<Rightarrow>
             if \<not> p_running s1 then (Some Aborted, s1)
             else (case write_deltas name (failing t) cs s1 of
                     (False, s2) \<Rightarrow> (Some WriteFailed, s2)
                   | (True, s2) \<Rightarrow>
                       (let s3 = s2\<lparr>lastCounts := cs,
                                     p_running := p_running s2 \<and> \<not> abort_later t\<rparr>
                        in if sleep_ok t then (None, s3) else (Some SleepFailed, s3))))"

text \<open>
  The loop, driven by what the environment does in each pass. \<open>None\<close> means the session is
  still running when the passes supplied are used up.
\<close>

fun testing_loop :: "string \<Rightarrow> tick list \<Rightarrow> PollSession \<Rightarrow> exit option \<times> PollSession" where
  "testing_loop name [] s = (if p_running s then None else Some Aborted, s)"
| "testing_loop name (t # ts) s =
     (if \<not> p_running s then (Some Aborted, s)
      else case poll_tick name t s of
             (None, s') \<Rightarrow> testing_loop name ts s'
           | (Some x, s') \<Rightarrow> (Some x, s'))"

text \<open>The frames written by one pass.\<close>

definition tick_frames :: "string \<Rightarrow> tick \<Rightarrow> PollSession \<Rightarrow> frame list" where
  "tick_frames name t s = drop (length (p_written s)) (p_written (snd (poll_tick name t s)))"

text \<open>The entries of \<open>cs\<close> whose count differs from the baseline.\<close>

definition changed :: "counts \<Rightarrow> counts \<Rightarrow> counts" where
  "changed base cs = filter (\<lambda>(state, count). count \<noteq> previous base state) cs"

section \<open>Stream session, live mode\<close>

text \<open>
  \<open>createLiveSSE\<close> (src/unnamed/part_001, lines 199 to 254) is an async callback with two
  suspension points, the awaited heartbeat write and the sleep; the listeners it attaches
  run whenever the shared source emits. Several sessions run interleaved on one thread, so
  the model is a transition system over the multiplexer, the listeners attached to the
  sources, and the sessions. A handler is the closure a session created for an event type:
  it is identified by the session and the event type. \<open>l_written\<close> is the sequence of
  \<open>writeSSE\<close> calls the session has made, in call order; the write of a handler is not
  awaited and its failure is swallowed, so only the heartbeat write has an outcome that
  matters. The source is an event emitter of the engine package: \<open>on\<close> appends a listener,
  \<open>removeListener\<close> removes one occurrence of it.
\<close>

type_synonym handler = "nat \<times> string"

datatype phase = AwaitWrite | Sleeping | Done

record LiveSession =
  l_name :: string
  l_queueEvents :: ref
  l_eventId :: nat
  l_running :: bool
  l_listeners :: "(string \<times> handler) list"
  l_written :: "frame list"
  l_phase :: phase

record System =
  mux :: Mux
  attached :: "(ref \<times> string \<times> handler) list"
  sessions :: "LiveSession list"

definition no_sessions :: System where
  "no_sessions = \<lparr>mux = no_subscriptions, attached = [], sessions = []\<rparr>"

definition eventTypes :: "string list" where
  "eventTypes = [''completed'', ''failed'', ''progress'', ''stalled'', ''active'', ''waiting'']"

definition writeSSE :: "string \<Rightarrow> payload \<Rightarrow> LiveSession \<Rightarrow> LiveSession" where
  "writeSSE ev d x =
     x\<lparr>l_written := l_written x @ [\<lparr>event = ev, data = d, sse_id = decimal_string (l_eventId x)\<rparr>],
       l_eventId := l_eventId x + 1\<rparr>"

text \<open>The body of a handler: nothing once \<open>running\<close> is false, else one write.\<close>

definition handler_call :: "string \<Rightarrow> string \<Rightarrow> LiveSession \<Rightarrow> LiveSession" where
  "handler_call eventType args x =
     (if \<not> l_running x then x else writeSSE eventType (EventData args (l_name x)) x)"

text \<open>
  The \<open>finally\<close> block: \<open>removeListener\<close> for every element of the \<open>listeners\<close> array,
  then \<open>releaseQueueEvents(name)\<close>; the callback has then returned.
\<close>

definition cleanup :: "nat \<Rightarrow> System \<Rightarrow> System" where
  "cleanup sid s =
     (let x = sessions s ! sid
      in s\<lparr>attached := fold (\<lambda>(ev, h). remove1 (l_queueEvents x, ev, h)) (l_listeners x)
                          (attached s),
           mux := releaseQueueEvents (l_name x) (mux s),
           sessions := (sessions s)[sid := x\<lparr>l_phase := Done\<rparr>]\<rparr>)"

text \<open>
  The test of \<open>while (running)\<close>: when it holds, the heartbeat write is called and the
  session waits for it; when it fails, the loop is left and the \<open>finally\<close> block runs.
\<close>

definition loop_top :: "nat \<Rightarrow> nat \<Rightarrow> System \<Rightarrow> System" where
  "loop_top now sid s =
     (let x = sessions s ! sid
      in if l_running x
         then s\<lparr>sessions := (sessions s)
                  [sid := (writeSSE ''heartbeat'' (HeartbeatData now) x)\<lparr>l_phase := AwaitWrite\<rparr>]\<rparr>
         else cleanup sid s)"

text \<open>
  \<open>createLiveSSE\<close> up to its first suspension: without a connection it answers 500 and
  touches nothing; else it acquires the shared source, attaches one handler per event type
  and enters the loop.
\<close>

definition createLiveSSE ::
  "string \<Rightarrow> ConnectionOptions option \<Rightarrow> string option \<Rightarrow> nat \<Rightarrow> System \<Rightarrow> System" where
  "createLiveSSE name conn pre now s =
     (case conn of
        None \<Rightarrow> s
      | Some c \<Rightarrow>
          (let (qe, m) = acquireQueueEvents name c pre (mux s);
               sid = length (sessions s);
               hs = map (\<lambda>t. (t, (sid, t))) eventTypes;
               x = \<lparr>l_name = name, l_queueEvents = qe, l_eventId = 0, l_running = True,
                    l_listeners = hs, l_written = [], l_phase = AwaitWrite\<rparr>
           in loop_top now sid
                (s\<lparr>mux := m,
                   attached := attached s @ map (\<lambda>(t, h). (qe, t, h)) hs,
                   sessions := sessions s @ [x]\<rparr>)))"

text \<open>The source emits: its listeners for the event type run in the order of attachment.\<close>

definition emit :: "ref \<Rightarrow> string \<Rightarrow> string \<Rightarrow> System \<Rightarrow> System" where
  "emit src eventType args s =
     s\<lparr>sessions :=
         fold (\<lambda>(q, ev, (sid, t)) xs.
                 if q = src \<and> ev = eventType \<and> sid < length xs
                 then xs[sid := handler_call t args (xs ! sid)] else xs)
              (attached s) (sessions s)\<rparr>"

datatype event =
    Open string "ConnectionOptions option" "string option" nat
  | Emit ref string string
  | Abort nat
  | WriteSettled nat bool
  | SleepSettled nat bool nat

fun step :: "event \<Rightarrow> System \<Rightarrow> System" where
  "step (Open name conn pre now) s = createLiveSSE name conn pre now s"
| "step (Emit src eventType args) s = emit src eventType args s"
| "step (Abort sid) s =
     (if sid < length (sessions s)
      then s\<lparr>sessions := (sessions s)[sid := (sessions s ! sid)\<lparr>l_running := False\<rparr>]\<rparr>
      else s)"
| "step (WriteSettled sid ok) s =
     (if sid < length (sessions s) \<and> l_phase (sessions s ! sid) = AwaitWrite
      then (if ok
            then s\<lparr>sessions := (sessions s)[sid := (sessions s ! sid)\<lparr>l_phase := Sleeping\<rparr>]\<rparr>
            else cleanup sid s)
      else s)"
| "step (SleepSettled sid ok now) s =
     (if sid < length (sessions s) \<and> l_phase (sessions s ! sid) = Sleeping
      then (if ok then loop_top now sid s else cleanup sid s)
      else s)"

primrec steps :: "event list \<Rightarrow> System \<Rightarrow> System" where
  "steps [] s = s"
| "steps (e # es) s = steps es (step e s)"

text \<open>Session \<open>sid\<close> is live before the event and has terminated after it.\<close>

definition terminates :: "event \<Rightarrow> nat \<Rightarrow> System \<Rightarrow> bool" where
  "terminates e sid s =
     (sid < length (sessions s) \<and> l_phase (sessions s ! sid) \<noteq> Done \<and>
      l_phase (sessions (step e s) ! sid) = Done)"

text \<open>The listeners of a session that are attached to some source.\<close>

definition listeners_of :: "nat \<Rightarrow> System \<Rightarrow> (ref \<times> string \<times> handler) list" where
  "listeners_of sid s = filter (\<lambda>(q, ev, (i, t)). i = sid) (attached s)"

section \<open>Invariants and examples\<close>

text \<open>
  What holds of the registry in every state it can reach: at most one queue object has been
  constructed per name, none for a name that an open registry has no entry for and exactly
  one for a name it has an entry for; a suspended \<open>closeAll\<close> implies the flag; every
  entry is for a name that \<open>queues[name]\<close> finds; a closed registry with no \<open>closeAll\<close>
  suspended has no entries.
\<close>

definition reg_inv :: "Registry \<Rightarrow> bool" where
  "reg_inv s \<longleftrightarrow>
     (\<forall>k. created k s \<le> 1) \<and>
     (\<forall>k. \<not> closed s \<longrightarrow> map_of (managed s) k = None \<longrightarrow> created k s = 0) \<and>
     (awaiting s \<longrightarrow> closed s) \<and>
     (\<forall>k. map_of (managed s) k \<noteq> None \<longrightarrow> property (queues (config s)) k \<noteq> None) \<and>
     (closed s \<longrightarrow> \<not> awaiting s \<longrightarrow> managed s = []) \<and>
     (\<forall>k. map_of (managed s) k \<noteq> None \<longrightarrow> created k s = 1)"

text \<open>A registry in testing mode with two queues, the first with a processor.\<close>

definition example_config :: GlideMQConfig where
  "example_config =
     \<lparr>connection = None,
      queues = [(''emails'', \<lparr>processor = True, concurrency = None, workerOpts = []\<rparr>),
                (''reports'', \<lparr>processor = False, concurrency = None, workerOpts = []\<rparr>)],
      prefix = None, testing = Some True\<rparr>"

definition example_registry :: Registry where
  "example_registry =
     \<lparr>config = example_config, managed = [], closed = False, heap = [], close_calls = [],
      awaiting = False\<rparr>"

text \<open>
  What holds of the multiplexer in every state it can reach: one entry per name, each with
  a positive count.
\<close>

definition mux_inv :: "Mux \<Rightarrow> bool" where
  "mux_inv m \<longleftrightarrow>
     distinct (map fst (subscriptions m)) \<and>
     (\<forall>k e. map_of (subscriptions m) k = Some e \<longrightarrow> 0 < refCount e)"

text \<open>Two connection configurations.\<close>

definition conn1 :: ConnectionOptions where
  "conn1 = ConnectionOptions [(''localhost'', 6379)]"

definition conn2 :: ConnectionOptions where
  "conn2 = ConnectionOptions [(''elsewhere'', 7000)]"

text \<open>
  The frames a pass is expected to write for the changed entries \<open>ds\<close>, the first with id
  \<open>k\<close>: one per entry, in order, each carrying the new count and the baseline.
\<close>

fun delta_frames :: "string \<Rightarrow> counts \<Rightarrow> nat \<Rightarrow> counts \<Rightarrow> frame list" where
  "delta_frames name base k [] = []"
| "delta_frames name base k ((state, count) # ds) =
     \<lparr>event = ''counts'', data = CountsData name state count (previous base state),
      sse_id = decimal_string k\<rparr> # delta_frames name base (k + 1) ds"

text \<open>
  A polling session as \<open>createTestingSSE\<close> leaves it at its first pass, counts of a queue
  with three waiting jobs, a pass of the loop in which nothing fails and nothing aborts,
  counts that differ from the former in one state, and a session in mid-stream.
\<close>

definition open_session :: PollSession where
  "open_session = \<lparr>p_eventId = 0, lastCounts = initial_counts, p_running = True, p_written = []\<rparr>"

definition busy_counts :: counts where
  "busy_counts =
     [(''waiting'', 3), (''active'', 0), (''completed'', 0), (''failed'', 0), (''delayed'', 0)]"

definition quiet_tick :: "counts \<Rightarrow> tick" where
  "quiet_tick cs =
     \<lparr>read = Some cs, abort_in_read = False, failing = [], abort_later = False, sleep_ok = True\<rparr>"

definition one_change :: counts where
  "one_change =
     [(''waiting'', 3), (''active'', 1), (''completed'', 0), (''failed'', 0), (''delayed'', 0)]"

definition polling_session :: PollSession where
  "polling_session = \<lparr>p_eventId = 4, lastCounts = busy_counts, p_running = True, p_written = []\<rparr>"

text \<open>
  A session's counter equals the number of frames it has written, and those frames carry
  the ids 0, 1, 2, ... in the order of writing.
\<close>

definition session_ok :: "LiveSession \<Rightarrow> bool" where
  "session_ok x \<longleftrightarrow> l_eventId x = length (l_written x) \<and> ids_in_order (l_written x)"

definition poll_ok :: "PollSession \<Rightarrow> bool" where
  "poll_ok s \<longleftrightarrow> p_eventId s = length (p_written s) \<and> ids_in_order (p_written s)"

text \<open>What a handler call may change of a session: the frames written and the counter.\<close>

definition wrote :: "LiveSession \<Rightarrow> LiveSession \<Rightarrow> bool" where
  "wrote x y \<longleftrightarrow>
     l_name y = l_name x \<and> l_queueEvents y = l_queueEvents x \<and>
     l_listeners y = l_listeners x \<and> l_phase y = l_phase x \<and> l_running y = l_running x \<and>
     (session_ok x \<longrightarrow> session_ok y)"

text \<open>The function that \<open>emit\<close> folds over the attached listeners.\<close>

definition deliver :: "ref \<Rightarrow> string \<Rightarrow> string \<Rightarrow> ref \<times> string \<times> handler \<Rightarrow>
    LiveSession list \<Rightarrow> LiveSession list" where
  "deliver src eventType args =
     (\<lambda>(q, ev, (sid, t)) xs.
        if q = src \<and> ev = eventType \<and> sid < length xs
        then xs[sid := handler_call t args (xs ! sid)] else xs)"

text \<open>Every session of the system is in that state.\<close>

definition ids_inv :: "System \<Rightarrow> bool" where
  "ids_inv s \<longleftrightarrow> (\<forall>i < length (sessions s). session_ok (sessions s ! i))"

text \<open>
  A session is live on a name until its callback has returned. What holds of the system in
  every state it can reach: every attached listener was attached once, by a live session,
  to the source that session acquired, and is in the session's \<open>listeners\<close> array; and
  the count the multiplexer holds for a name is the number of sessions live on it.
\<close>

definition live :: "string \<Rightarrow> LiveSession \<Rightarrow> bool" where
  "live n x \<longleftrightarrow> l_name x = n \<and> l_phase x \<noteq> Done"

definition live_count :: "string \<Rightarrow> LiveSession list \<Rightarrow> nat" where
  "live_count n xs = length (filter (live n) xs)"

definition attach_inv :: "System \<Rightarrow> bool" where
  "attach_inv s \<longleftrightarrow>
     distinct (attached s) \<and>
     (\<forall>q ev sid t. (q, ev, (sid, t)) \<in> set (attached s) \<longrightarrow>
        sid < length (sessions s) \<and> q = l_queueEvents (sessions s ! sid) \<and>
        (ev, (sid, t)) \<in> set (l_listeners (sessions s ! sid)) \<and>
        l_phase (sessions s ! sid) \<noteq> Done)"

definition count_inv :: "System \<Rightarrow> bool" where
  "count_inv s \<longleftrightarrow> (\<forall>n. count_of n (mux s) = int (live_count n (sessions s)))"

text \<open>Session by session, \<open>ys\<close> has the identity and the liveness of \<open>xs\<close>.\<close>

definition same_sessions :: "LiveSession list \<Rightarrow> LiveSession list \<Rightarrow> bool" where
  "same_sessions xs ys \<longleftrightarrow>
     length ys = length xs \<and>
     (\<forall>i < length xs.
        l_name (ys ! i) = l_name (xs ! i) \<and> l_queueEvents (ys ! i) = l_queueEvents (xs ! i) \<and>
        l_listeners (ys ! i) = l_listeners (xs ! i) \<and>
        (l_phase (ys ! i) = Done) = (l_phase (xs ! i) = Done))"

definition sys_inv :: "System \<Rightarrow> bool" where
  "sys_inv s \<longleftrightarrow> attach_inv s \<and> count_inv s"

text \<open>
  Runs of the system: two sessions on one queue with one engine event and a second
  heartbeat of the first session; two sessions just opened; one session aborted by its
  client while it sleeps.
\<close>

definition two_sessions :: "event list" where
  "two_sessions =
     [Open ''emails'' (Some conn1) None 100, Open ''emails'' (Some conn2) (Some ''other'') 101,
      Emit 0 ''completed'' ''job-1'', WriteSettled 0 True, SleepSettled 0 True 15100]"

definition two_opens :: "event list" where
  "two_opens =
     [Open ''emails'' (Some conn1) None 100, Open ''emails'' (Some conn2) (Some ''other'') 101]"

definition aborted_session :: "event list" where
  "aborted_session = [Open ''emails'' (Some conn1) None 100, WriteSettled 0 True, Abort 0]"

section \<open>Properties\<close>

subsection \<open>Basic facts about the registry\<close>

lemma closed_get: "closed s \<Longrightarrow> get name s = (Inl RegistryClosedError, s)"
  by (simp add: get_def)

lemma closed_exec: "closed s \<Longrightarrow> closed (exec x s)"
  by (cases x) (simp_all add: closed_get closeAll_call_def closeAll_resume_def)

lemma closed_run: "closed s \<Longrightarrow> closed (run xs s)"
  by (induction xs arbitrary: s) (simp_all add: closed_exec)

lemma closed_closeAll_call: "closed (snd (closeAll_call s))"
  by (simp add: closeAll_call_def)

lemma closed_closeAll: "closed (snd (closeAll outcomes s))"
  by (simp add: closeAll_def closeAll_call_def closeAll_resume_def)

lemma has_property: "has name s \<longleftrightarrow> property (queues (config s)) name \<noteq> None"
  by (simp add: has_def property_def split: option.splits)

lemma get_existing:
  "\<not> closed s \<Longrightarrow> map_of (managed s) n = Some h \<Longrightarrow> get n s = (Inr h, s)"
  by (simp add: get_def)

lemma get_unconfigured:
  "\<not> closed s \<Longrightarrow> map_of (managed s) n = None \<Longrightarrow> property (queues (config s)) n = None
     \<Longrightarrow> get n s = (Inl (QueueNotConfiguredError n), s)"
  by (simp add: get_def)

lemma get_create:
  assumes "\<not> closed s" "map_of (managed s) n = None" "property (queues (config s)) n = Some qc"
  shows "\<exists>h. fst (get n s) = Inr h \<and> managed (snd (get n s)) = AList.update n h (managed s)"
    and "closed (snd (get n s)) = closed s"
    and "awaiting (snd (get n s)) = awaiting s"
    and "close_calls (snd (get n s)) = close_calls s"
    and "created k (snd (get n s)) = created k s + (if k = n then 1 else 0)"
  using assms
  by (cases "truthy (testing (config s))"; cases "processor qc";
      simp add: get_def createEntry_def createTestEntry_def alloc_def Let_def created_def)+

lemma reg_inv_init: "QueueRegistryImpl cfg = Inr r \<Longrightarrow> reg_inv r"
  by (auto simp: QueueRegistryImpl_def reg_inv_def created_def split: if_splits)

lemma config_get: "config (snd (get n s)) = config s"
  by (cases "truthy (testing (config s))")
     (auto simp: get_def createEntry_def createTestEntry_def alloc_def Let_def
        split: option.splits prod.splits)

lemma reg_inv_get: assumes "reg_inv s" shows "reg_inv (snd (get n s))"
proof (cases "closed s")
  case True
  then show ?thesis using assms by (simp add: closed_get)
next
  case False
  note is_open = False
  show ?thesis
  proof (cases "map_of (managed s) n")
    case (Some h)
    then show ?thesis using assms is_open by (simp add: get_existing)
  next
    case None
    show ?thesis
    proof (cases "property (queues (config s)) n")
      case nc: None
      then show ?thesis using assms is_open None by (simp add: get_unconfigured)
    next
      case (Some qc)
      note c = get_create [OF is_open None Some]
      from c(1) obtain h where
        m: "managed (snd (get n s)) = AList.update n h (managed s)" by blast
      have zero: "created n s = 0" using assms is_open None by (simp add: reg_inv_def)
      have cfg: "config (snd (get n s)) = config s" by (rule config_get)
      show ?thesis
        unfolding reg_inv_def
        using assms is_open Some zero
        by (auto simp: reg_inv_def c(2,3,5) m cfg update_conv')
    qed
  qed
qed

lemma reg_inv_exec: "reg_inv s \<Longrightarrow> reg_inv (exec x s)"
proof (cases x)
  case (Get n)
  assume "reg_inv s"
  then show ?thesis using Get by (simp add: reg_inv_get)
next
  case CloseAll
  assume "reg_inv s"
  then show ?thesis using CloseAll
    by (auto simp: reg_inv_def closeAll_call_def created_def)
next
  case (Settle outs)
  assume "reg_inv s"
  then show ?thesis using Settle
    by (auto simp: reg_inv_def closeAll_resume_def created_def)
qed simp_all

lemma reg_inv_run: "reg_inv s \<Longrightarrow> reg_inv (run xs s)"
  by (induction xs arbitrary: s) (simp_all add: reg_inv_exec)

lemma config_exec: "config (exec x s) = config s"
  by (cases x) (simp_all add: config_get closeAll_call_def closeAll_resume_def)

lemma config_run: "config (run xs s) = config s"
  by (induction xs arbitrary: s) (simp_all add: config_exec)

lemma created_get: "created k s \<le> created k (snd (get n s))"
  by (cases "truthy (testing (config s))")
     (auto simp: get_def createEntry_def createTestEntry_def alloc_def Let_def created_def
        split: option.splits prod.splits)

lemma created_exec: "created k s \<le> created k (exec x s)"
  by (cases x) (simp_all add: created_get, simp_all add: closeAll_call_def closeAll_resume_def created_def)

lemma created_run: "created k s \<le> created k (run xs s)"
proof (induction xs arbitrary: s)
  case Nil
  show ?case by simp
next
  case (Cons x xs)
  have "created k s \<le> created k (exec x s)" by (rule created_exec)
  also have "\<dots> \<le> created k (run xs (exec x s))" by (rule Cons.IH)
  finally show ?case by simp
qed

lemma gets_keep:
  "\<not> closed s \<Longrightarrow> map_of (managed s) n = Some h \<Longrightarrow>
     \<not> closed (run (map Get ms) s) \<and> map_of (managed (run (map Get ms) s)) n = Some h"
proof (induction ms arbitrary: s)
  case Nil
  then show ?case by simp
next
  case (Cons m ms)
  have "\<not> closed (snd (get m s)) \<and> map_of (managed (snd (get m s))) n = Some h"
  proof (cases "map_of (managed s) m")
    case (Some e)
    then show ?thesis using Cons.prems by (simp add: get_existing)
  next
    case None
    then have neq: "m \<noteq> n" using Cons.prems by auto
    show ?thesis
    proof (cases "property (queues (config s)) m")
      case nc: None
      then show ?thesis using Cons.prems None by (simp add: get_unconfigured)
    next
      case (Some qc)
      note c = get_create [OF Cons.prems(1) None Some]
      from c(1) obtain e where
        "managed (snd (get m s)) = AList.update m e (managed s)" by blast
      then show ?thesis using Cons.prems neq c(2) by (simp add: update_conv')
    qed
  qed
  then show ?case using Cons.IH [of "snd (get m s)"] by simp
qed

lemma managed_kept:
  assumes "reg_inv s" "\<not> closed (exec x s)" "map_of (managed s) n = Some h"
  shows "map_of (managed (exec x s)) n = Some h"
proof (cases x)
  case (Get m)
  have o: "\<not> closed s" using assms(2) closed_exec by blast
  show ?thesis using gets_keep [OF o assms(3), of "[m]"] Get by simp
next
  case CloseAll
  then show ?thesis using assms by (simp add: closeAll_call_def split: if_splits)
next
  case (Settle outs)
  have "\<not> closed s" using assms(2) closed_exec by blast
  then have "\<not> awaiting s" using assms(1) by (auto simp: reg_inv_def)
  then show ?thesis using Settle assms(3) by (simp add: closeAll_resume_def)
qed (simp_all add: assms)

lemma managed_kept_run:
  "reg_inv s \<Longrightarrow> \<not> closed (run xs s) \<Longrightarrow> map_of (managed s) n = Some h
     \<Longrightarrow> map_of (managed (run xs s)) n = Some h"
proof (induction xs arbitrary: s)
  case Nil
  then show ?case by simp
next
  case (Cons x xs)
  have o: "\<not> closed (exec x s)" using Cons.prems(2) closed_run by fastforce
  have "map_of (managed (exec x s)) n = Some h"
    by (rule managed_kept [OF Cons.prems(1) o Cons.prems(3)])
  then show ?case using Cons.IH [of "exec x s"] Cons.prems reg_inv_exec by simp
qed

lemma get_configured:
  assumes "reg_inv s" "\<not> closed s" "property (queues (config s)) n \<noteq> None"
  shows "\<exists>h. fst (get n s) = Inr h \<and> map_of (managed (snd (get n s))) n = Some h"
proof (cases "map_of (managed s) n")
  case (Some h)
  then show ?thesis using assms(2) by (simp add: get_existing)
next
  case None
  from assms(3) obtain qc where qc: "property (queues (config s)) n = Some qc" by blast
  from get_create(1) [OF assms(2) None qc] show ?thesis by (auto simp: update_conv')
qed

lemma created_once:
  assumes "reg_inv s" "map_of (managed s) n \<noteq> None"
  shows "created n (run xs s) = 1"
proof -
  have "created n s = 1" using assms by (simp add: reg_inv_def)
  moreover have "created n s \<le> created n (run xs s)" by (rule created_run)
  moreover have "created n (run xs s) \<le> 1"
    using reg_inv_run [OF assms(1), of xs] by (simp add: reg_inv_def)
  ultimately show ?thesis by simp
qed

subsection \<open>Claims about the registry\<close>

text \<open>
  C1. For a queue name that the configuration defines (and likewise for any other name
  that \<open>has\<close> accepts), \<open>get\<close> on a registry that is not closed returns a handle, and every later \<open>get\<close> of that name returns the identical
  handle for as long as the registry is not closed, whatever operations (among them
  \<open>get\<close> for other names) run in between; exactly one queue object is ever constructed
  for the name, whatever happens to the registry afterwards.
\<close>

theorem get_returns_identical_handle:
  assumes "QueueRegistryImpl cfg = Inr r0"
    and "has n r0"
    and "\<not> closed (run ops r0)"
  shows "\<exists>h. fst (get n (run ops r0)) = Inr h \<and>
           (\<forall>xs. \<not> closed (run xs (snd (get n (run ops r0)))) \<longrightarrow>
                 get n (run xs (snd (get n (run ops r0)))) =
                   (Inr h, run xs (snd (get n (run ops r0))))) \<and>
           (\<forall>xs. created n (run xs (snd (get n (run ops r0)))) = 1)"
proof -
  let ?s = "run ops r0"
  have inv: "reg_inv ?s" using assms(1) reg_inv_init reg_inv_run by blast
  have "config ?s = config r0" by (rule config_run)
  then have cfg: "property (queues (config ?s)) n \<noteq> None" using assms(2) by (simp add: has_property)
  from get_configured [OF inv assms(3) cfg] obtain h where
    h: "fst (get n ?s) = Inr h" and m: "map_of (managed (snd (get n ?s))) n = Some h"
    by blast
  let ?s1 = "snd (get n ?s)"
  have inv1: "reg_inv ?s1" using inv by (rule reg_inv_get)
  have again: "get n (run xs ?s1) = (Inr h, run xs ?s1)" if "\<not> closed (run xs ?s1)" for xs
    using managed_kept_run [OF inv1 that m] that by (simp add: get_existing)
  have once: "created n (run xs ?s1) = 1" for xs
    using created_once [OF inv1, of n xs] m by simp
  show ?thesis using h again once by blast
qed

theorem get_returns_identical_handle_witness:
  "QueueRegistryImpl example_config = Inr example_registry \<and>
   has ''emails'' example_registry \<and>
   \<not> closed (run [Get ''reports''] example_registry) \<and>
   fst (get ''emails'' (run [Get ''reports'', Has ''x'', Get ''emails'']
          (snd (get ''emails'' (run [Get ''reports''] example_registry))))) =
     fst (get ''emails'' (run [Get ''reports''] example_registry)) \<and>
   created ''emails'' (run [Get ''emails'', CloseAll, Settle [Fulfilled, Fulfilled], Get ''emails'']
          (snd (get ''emails'' (run [Get ''reports''] example_registry)))) = 1"
proof -
  have a: "QueueRegistryImpl example_config = Inr example_registry"
    by (simp add: QueueRegistryImpl_def example_config_def example_registry_def truthy_def)
  have b: "has ''emails'' example_registry"
    by (simp add: has_def example_config_def example_registry_def)
  have c: "\<not> closed (run [Get ''reports''] example_registry)"
    by code_simp
  have d: "\<not> closed (run [Get ''reports'', Has ''x'', Get ''emails'']
          (snd (get ''emails'' (run [Get ''reports''] example_registry))))"
    by code_simp
  from get_returns_identical_handle [OF a b c] obtain h where
    h: "fst (get ''emails'' (run [Get ''reports''] example_registry)) = Inr h"
    and again: "\<And>xs. \<not> closed (run xs (snd (get ''emails'' (run [Get ''reports''] example_registry)))) \<Longrightarrow>
                 get ''emails'' (run xs (snd (get ''emails'' (run [Get ''reports''] example_registry)))) =
                   (Inr h, run xs (snd (get ''emails'' (run [Get ''reports''] example_registry))))"
    and once: "\<And>xs. created ''emails'' (run xs (snd (get ''emails'' (run [Get ''reports''] example_registry)))) = 1"
    by blast
  show ?thesis using a b c h again [OF d] once by (simp del: run.simps)
qed

text \<open>
  C3. Once a run of \<open>closeAll\<close> has completed (its promise has resolved), the registry is
  closed and stays closed under every sequence of registry operations, and every \<open>get\<close>,
  for every name, fails with the closed-registry error and changes nothing. More generally
  the flag never reverts: from any closed state, every sequence of operations leads to a
  closed state in which \<open>get\<close> fails in that way.
\<close>

theorem closed_is_permanent:
  "fst (closeAll outcomes s) = Resolved \<and>
   closed (run ops (snd (closeAll outcomes s))) \<and>
   get n (run ops (snd (closeAll outcomes s))) =
     (Inl RegistryClosedError, run ops (snd (closeAll outcomes s))) \<and>
   (closed s \<longrightarrow> closed (run ops s) \<and> fst (get n (run ops s)) = Inl RegistryClosedError)"
proof -
  have r: "fst (closeAll outcomes s) = Resolved"
    by (simp add: closeAll_def closeAll_call_def closeAll_resume_def)
  have c: "closed (run ops (snd (closeAll outcomes s)))"
    by (simp add: closed_run closed_closeAll)
  have g: "closed (run ops s) \<and> fst (get n (run ops s)) = Inl RegistryClosedError" if "closed s"
    using closed_run [OF that, of ops] by (simp add: closed_get)
  show ?thesis using r c g by (simp add: closed_get)
qed

theorem closed_is_permanent_witness:
  "closed (run [Get ''emails'', Settle [], CloseAll, Get ''reports'']
            (snd (closeAll [Fulfilled, Failed ''boom''] (snd (get ''emails'' example_registry))))) \<and>
   fst (get ''emails'' (run [Get ''emails'', Settle [], CloseAll, Get ''reports'']
            (snd (closeAll [Fulfilled, Failed ''boom''] (snd (get ''emails'' example_registry)))))) =
     Inl RegistryClosedError \<and>
   closed (snd (closeAll_call example_registry)) \<and>
   fst (get ''billing'' (run [Settle [], Get ''emails''] (snd (closeAll_call example_registry)))) =
     Inl RegistryClosedError"
proof -
  have c: "closed (snd (closeAll_call example_registry))" by (rule closed_closeAll_call)
  show ?thesis
    using closed_is_permanent [of "[Fulfilled, Failed ''boom'']" "snd (get ''emails'' example_registry)"
            "[Get ''emails'', Settle [], CloseAll, Get ''reports'']" "''emails''"]
          closed_is_permanent [of "[]" "snd (closeAll_call example_registry)"
            "[Settle [], Get ''emails'']" "''billing''"] c
    by (simp del: run.simps)
qed

text \<open>
  A name that is not a key of \<open>queues\<close> but names a member inherited from
  \<open>Object.prototype\<close> passes the truthiness test in \<open>get\<close>: on an open registry \<open>get\<close>
  creates a queue for it, without a worker, and memoizes it.
\<close>

lemma get_of_inherited_name:
  assumes "\<not> closed s" "map_of (managed s) n = None" "map_of (queues (config s)) n = None"
    "n \<in> set Object_prototype"
  shows "\<exists>h. fst (get n s) = Inr h \<and> worker h = None \<and>
           map_of (managed (snd (get n s))) n = Some h"
proof -
  have p: "property (queues (config s)) n = Some inherited_member"
    using assms(3,4) by (simp add: property_def)
  show ?thesis
    using assms(1,2) p
    by (cases "truthy (testing (config s))")
       (simp_all add: get_def createEntry_def createTestEntry_def alloc_def Let_def
          inherited_member_def update_conv')
qed

lemma get_toString_example:
  "has ''toString'' example_registry \<and>
   ''toString'' \<notin> set (names example_registry) \<and>
   map_of (queues (config example_registry)) ''toString'' = None \<and>
   fst (get ''toString'' example_registry) = Inr \<lparr>ident = 1, queue = 0, worker = None\<rparr>"
  by (simp add: has_def names_def get_def property_def Object_prototype_def inherited_member_def
        example_registry_def example_config_def truthy_def createTestEntry_def alloc_def Let_def)

text \<open>
  C4 as stated fails on a closed registry: \<open>get\<close> tests the flag before it looks the
  name up, so for the unconfigured name \<open>billing\<close> it fails with the closed-registry error
  and not with the not-configured error.
\<close>

theorem unconfigured_on_closed_counterexample:
  "QueueRegistryImpl example_config = Inr example_registry \<and>
   \<not> has ''billing'' example_registry \<and>
   fst (closeAll [] example_registry) = Resolved \<and>
   fst (get ''billing'' (snd (closeAll [] example_registry))) = Inl RegistryClosedError \<and>
   fst (get ''billing'' (snd (closeAll [] example_registry))) \<noteq>
     Inl (QueueNotConfiguredError ''billing'')"
  by code_simp

text \<open>
  C4, amended. For a name that \<open>has\<close> rejects, that is, a name that is neither a key of
  the \<open>queues\<close> object nor the name of a member it inherits from \<open>Object.prototype\<close>,
  \<open>get\<close> fails in every reachable state and changes nothing: with the not-configured
  error while the registry is not closed, with the closed-registry error once it is.
\<close>

theorem get_unconfigured_name:
  assumes "QueueRegistryImpl cfg = Inr r0" and "\<not> has n r0"
  shows "get n (run ops r0) =
           (Inl (if closed (run ops r0) then RegistryClosedError else QueueNotConfiguredError n),
            run ops r0)"
proof (cases "closed (run ops r0)")
  case True
  then show ?thesis by (simp add: closed_get)
next
  case False
  have inv: "reg_inv (run ops r0)" using assms(1) reg_inv_init reg_inv_run by blast
  have "config (run ops r0) = config r0" by (rule config_run)
  then have q: "property (queues (config (run ops r0))) n = None"
    using assms(2) by (simp add: has_property)
  then have m: "map_of (managed (run ops r0)) n = None"
    using inv unfolding reg_inv_def by blast
  show ?thesis using False get_unconfigured [OF False m q] by simp
qed

theorem get_unconfigured_name_witness:
  "QueueRegistryImpl example_config = Inr example_registry \<and>
   \<not> has ''billing'' example_registry \<and>
   get ''billing'' (run [Get ''emails''] example_registry) =
     (Inl (QueueNotConfiguredError ''billing''), run [Get ''emails''] example_registry) \<and>
   get ''billing'' (run [Get ''emails'', CloseAll] example_registry) =
     (Inl RegistryClosedError, run [Get ''emails'', CloseAll] example_registry)"
proof -
  have a: "QueueRegistryImpl example_config = Inr example_registry" by code_simp
  have b: "\<not> has ''billing'' example_registry" by code_simp
  have c: "\<not> closed (run [Get ''emails''] example_registry)" by code_simp
  have d: "closed (run [Get ''emails'', CloseAll] example_registry)" by code_simp
  show ?thesis
    using a b c d get_unconfigured_name [OF a b, of "[Get ''emails'']"]
      get_unconfigured_name [OF a b, of "[Get ''emails'', CloseAll]"]
    by (simp del: run.simps)
qed

text \<open>
  C5 as stated fails for a call of \<open>closeAll\<close> that arrives while an earlier run is still
  suspended at the \<open>await\<close>: the call returns through the guard on the flag, its promise
  resolves, and the map still holds the entry, which the earlier run clears only when it
  resumes.
\<close>

theorem closeAll_overlapping_counterexample:
  "fst (closeAll_call (snd (get ''emails'' example_registry))) = Pending \<and>
   closeAll [] (snd (closeAll_call (snd (get ''emails'' example_registry)))) =
     (Resolved, snd (closeAll_call (snd (get ''emails'' example_registry)))) \<and>
   managed (snd (closeAll [] (snd (closeAll_call (snd (get ''emails'' example_registry)))))) \<noteq> []"
  by code_simp

lemma closeAll_open:
  "\<not> closed s \<Longrightarrow>
     closeAll outcomes s =
       (Resolved, s\<lparr>closed := True, close_calls := close_calls s @ closeOps (managed s),
                    awaiting := False, managed := []\<rparr>)"
  by (simp add: closeAll_def closeAll_call_def closeAll_resume_def)

lemma closeAll_closed: "closed s \<Longrightarrow> closeAll outcomes s = (Resolved, s)"
  by (simp add: closeAll_def closeAll_call_def)

text \<open>
  C5, amended. Every run of \<open>closeAll\<close> resolves (it never rejects, whatever the outcomes
  of the close operations) and leaves the registry closed; a second run after it resolves
  without changing anything, so it issues no close call; a call that finds the registry
  closed returns at once and changes nothing; a run that finds the registry open issues the
  close calls of the entries and leaves the map empty when it completes. Hence in every
  reachable state in which no run is suspended at the \<open>await\<close>, the map is empty when a
  run completes; only a call that overlaps a suspended run completes with the map as it
  found it.
\<close>

theorem closeAll_idempotent:
  "fst (closeAll outcomes s) = Resolved \<and>
   closed (snd (closeAll outcomes s)) \<and>
   closeAll outcomes' (snd (closeAll outcomes s)) = (Resolved, snd (closeAll outcomes s)) \<and>
   (closed s \<longrightarrow> closeAll_call s = (Resolved, s)) \<and>
   (\<not> closed s \<longrightarrow>
      managed (snd (closeAll outcomes s)) = [] \<and>
      close_calls (snd (closeAll outcomes s)) = close_calls s @ closeOps (managed s)) \<and>
   (QueueRegistryImpl cfg = Inr r0 \<and> s = run ops r0 \<and> \<not> awaiting s \<longrightarrow>
      managed (snd (closeAll outcomes s)) = [])"
proof -
  have r: "fst (closeAll outcomes s) = Resolved"
    by (cases "closed s") (simp_all add: closeAll_open closeAll_closed)
  have c: "closed (snd (closeAll outcomes s))" by (rule closed_closeAll)
  have second: "closeAll outcomes' (snd (closeAll outcomes s)) = (Resolved, snd (closeAll outcomes s))"
    using c by (rule closeAll_closed)
  have early: "closed s \<longrightarrow> closeAll_call s = (Resolved, s)"
    by (simp add: closeAll_call_def)
  have work: "\<not> closed s \<longrightarrow>
      managed (snd (closeAll outcomes s)) = [] \<and>
      close_calls (snd (closeAll outcomes s)) = close_calls s @ closeOps (managed s)"
    by (simp add: closeAll_open)
  have quiet: "QueueRegistryImpl cfg = Inr r0 \<and> s = run ops r0 \<and> \<not> awaiting s \<longrightarrow>
      managed (snd (closeAll outcomes s)) = []"
  proof (intro impI, elim conjE)
    assume init: "QueueRegistryImpl cfg = Inr r0" and s: "s = run ops r0" and q: "\<not> awaiting s"
    show "managed (snd (closeAll outcomes s)) = []"
    proof (cases "closed s")
      case True
      have "reg_inv s" using init s reg_inv_init reg_inv_run by blast
      then have "managed s = []" using True q by (simp add: reg_inv_def)
      then show ?thesis using True by (simp add: closeAll_closed)
    next
      case False
      then show ?thesis by (simp add: closeAll_open)
    qed
  qed
  from r c second early work quiet show ?thesis by blast
qed

theorem closeAll_idempotent_witness:
  "QueueRegistryImpl example_config = Inr example_registry \<and>
   \<not> closed (run [Get ''emails'', Get ''reports''] example_registry) \<and>
   \<not> awaiting (run [Get ''emails'', Get ''reports''] example_registry) \<and>
   fst (closeAll [Failed ''boom'', Fulfilled, Fulfilled]
          (run [Get ''emails'', Get ''reports''] example_registry)) = Resolved \<and>
   managed (snd (closeAll [Failed ''boom'', Fulfilled, Fulfilled]
          (run [Get ''emails'', Get ''reports''] example_registry))) = [] \<and>
   close_calls (snd (closeAll [Failed ''boom'', Fulfilled, Fulfilled]
          (run [Get ''emails'', Get ''reports''] example_registry))) = [1, 0, 3] \<and>
   closed (snd (closeAll_call example_registry)) \<and>
   closeAll_call (snd (closeAll_call example_registry)) =
     (Resolved, snd (closeAll_call example_registry))"
proof -
  let ?s = "run [Get ''emails'', Get ''reports''] example_registry"
  have a: "QueueRegistryImpl example_config = Inr example_registry" by code_simp
  have b: "\<not> closed ?s" by code_simp
  have b': "\<not> awaiting ?s" by code_simp
  have e: "close_calls ?s @ closeOps (managed ?s) = [1, 0, 3]" by code_simp
  have c: "closed (snd (closeAll_call example_registry))" by (rule closed_closeAll_call)
  show ?thesis
    using a b b' c e
      closeAll_idempotent [of "[Failed ''boom'', Fulfilled, Fulfilled]" ?s "[]" example_config example_registry "[Get ''emails'', Get ''reports'']"]
      closeAll_idempotent [of "[]" "snd (closeAll_call example_registry)" "[]" example_config example_registry "[]"]
    by (simp del: run.simps)
qed

subsection \<open>The multiplexer\<close>

lemma acquire_new:
  "map_of (subscriptions m) n = None \<Longrightarrow>
     acquireQueueEvents n c p m =
       (length (sources m),
        m\<lparr>sources := sources m @ [\<lparr>qe_name = n, qe_connection = c, qe_prefix = p\<rparr>],
          subscriptions :=
            AList.update n \<lparr>queueEvents = length (sources m), refCount = 1\<rparr> (subscriptions m)\<rparr>)"
  by (simp add: acquireQueueEvents_def Let_def)

lemma acquire_existing:
  "map_of (subscriptions m) n = Some e \<Longrightarrow>
     acquireQueueEvents n c p m =
       (queueEvents e,
        m\<lparr>subscriptions := AList.update n (e\<lparr>refCount := refCount e + 1\<rparr>) (subscriptions m)\<rparr>)"
  by (simp add: acquireQueueEvents_def)

lemma release_absent:
  "map_of (subscriptions m) n = None \<Longrightarrow> releaseQueueEvents n m = m"
  by (simp add: releaseQueueEvents_def)

lemma release_shared:
  "map_of (subscriptions m) n = Some e \<Longrightarrow> 1 < refCount e \<Longrightarrow>
     releaseQueueEvents n m =
       m\<lparr>subscriptions := AList.update n (e\<lparr>refCount := refCount e - 1\<rparr>) (subscriptions m)\<rparr>"
  by (simp add: releaseQueueEvents_def Let_def)

lemma release_last:
  "map_of (subscriptions m) n = Some e \<Longrightarrow> refCount e \<le> 1 \<Longrightarrow>
     releaseQueueEvents n m =
       m\<lparr>source_closes := source_closes m @ [queueEvents e],
         subscriptions := AList.delete n (subscriptions m)\<rparr>"
  by (simp add: releaseQueueEvents_def Let_def)

lemma mux_inv_acquire: assumes "mux_inv m" shows "mux_inv (snd (acquireQueueEvents n c p m))"
proof (cases "map_of (subscriptions m) n")
  case None
  then show ?thesis using assms
    by (auto simp: acquire_new mux_inv_def distinct_update update_conv')
next
  case (Some e)
  have "0 < refCount e" using assms Some unfolding mux_inv_def by blast
  then have "0 \<le> refCount e" by simp
  then show ?thesis using assms Some
    by (auto simp: acquire_existing mux_inv_def distinct_update update_conv')
qed

lemma mux_inv_release: assumes "mux_inv m" shows "mux_inv (releaseQueueEvents n m)"
proof (cases "map_of (subscriptions m) n")
  case None
  then show ?thesis using assms by (simp add: release_absent)
next
  case (Some e)
  show ?thesis
  proof (cases "1 < refCount e")
    case True
    then show ?thesis using assms Some
      by (auto simp: release_shared mux_inv_def distinct_update update_conv')
  next
    case False
    then have "refCount e \<le> 1" by simp
    then show ?thesis using assms Some
      by (auto simp: release_last mux_inv_def distinct_delete delete_conv')
  qed
qed

lemma mux_inv_exec: "mux_inv m \<Longrightarrow> mux_inv (mux_exec x m)"
  by (cases x) (simp_all add: mux_inv_acquire mux_inv_release)

lemma mux_inv_run: "mux_inv m \<Longrightarrow> mux_inv (mux_run xs m)"
  by (induction xs arbitrary: m) (simp_all add: mux_inv_exec)

lemma mux_inv_empty: "mux_inv no_subscriptions"
  by (simp add: mux_inv_def no_subscriptions_def)

lemma mux_inv_entries:
  assumes "mux_inv m" "(k, e) \<in> set (subscriptions m)" shows "0 < refCount e"
proof -
  have "map_of (subscriptions m) k = Some e" using assms by (simp add: mux_inv_def)
  then show ?thesis using assms(1) unfolding mux_inv_def by blast
qed

text \<open>
  C2. For a name with no entry in the multiplexer: two \<open>acquire\<close> calls return the same
  source and leave the count at 2; the first matching \<open>release\<close> closes nothing and leaves
  the count at 1; the second closes that source, once, and removes the entry; a third
  \<open>release\<close> changes nothing at all, so there is no second close and no count below 0.
  And in every state reached from the empty map by \<open>acquire\<close> and \<open>release\<close> calls,
  every entry has a positive count.
\<close>

theorem refcount_discipline:
  assumes "map_of (subscriptions m) n = None"
  shows "(let (q1, m1) = acquireQueueEvents n c p m;
              (q2, m2) = acquireQueueEvents n c' p' m1;
              m3 = releaseQueueEvents n m2;
              m4 = releaseQueueEvents n m3;
              m5 = releaseQueueEvents n m4
          in q1 = q2 \<and>
             map_of (subscriptions m2) n = Some \<lparr>queueEvents = q1, refCount = 2\<rparr> \<and>
             source_closes m3 = source_closes m \<and>
             map_of (subscriptions m3) n = Some \<lparr>queueEvents = q1, refCount = 1\<rparr> \<and>
             source_closes m4 = source_closes m @ [q1] \<and>
             map_of (subscriptions m4) n = None \<and>
             m5 = m4) \<and>
         (\<forall>(k, e) \<in> set (subscriptions (mux_run ops no_subscriptions)). 0 < refCount e)"
proof -
  let ?q = "length (sources m)"
  define m1 where "m1 = snd (acquireQueueEvents n c p m)"
  define m2 where "m2 = snd (acquireQueueEvents n c' p' m1)"
  define m3 where "m3 = releaseQueueEvents n m2"
  define m4 where "m4 = releaseQueueEvents n m3"
  have a1: "acquireQueueEvents n c p m = (?q, m1)"
    unfolding m1_def using assms by (simp add: acquire_new)
  have e1: "map_of (subscriptions m1) n = Some \<lparr>queueEvents = ?q, refCount = 1\<rparr>"
    unfolding m1_def using assms by (simp add: acquire_new update_conv')
  have c1: "source_closes m1 = source_closes m"
    unfolding m1_def using assms by (simp add: acquire_new)
  have a2: "acquireQueueEvents n c' p' m1 = (?q, m2)"
    unfolding m2_def using e1 by (simp add: acquire_existing)
  have e2: "map_of (subscriptions m2) n = Some \<lparr>queueEvents = ?q, refCount = 2\<rparr>"
    unfolding m2_def using e1 by (simp add: acquire_existing update_conv')
  have c2: "source_closes m2 = source_closes m"
    unfolding m2_def using e1 c1 by (simp add: acquire_existing)
  have e3: "map_of (subscriptions m3) n = Some \<lparr>queueEvents = ?q, refCount = 1\<rparr>"
    unfolding m3_def using e2 by (simp add: release_shared update_conv')
  have c3: "source_closes m3 = source_closes m"
    unfolding m3_def using e2 c2 by (simp add: release_shared)
  have e4: "map_of (subscriptions m4) n = None"
    unfolding m4_def using e3 by (simp add: release_last delete_conv')
  have c4: "source_closes m4 = source_closes m @ [?q]"
    unfolding m4_def using e3 c3 by (simp add: release_last)
  have r5: "releaseQueueEvents n m4 = m4" using e4 by (rule release_absent)
  have scenario: "(let (q1, m1) = acquireQueueEvents n c p m;
              (q2, m2) = acquireQueueEvents n c' p' m1;
              m3 = releaseQueueEvents n m2;
              m4 = releaseQueueEvents n m3;
              m5 = releaseQueueEvents n m4
          in q1 = q2 \<and>
             map_of (subscriptions m2) n = Some \<lparr>queueEvents = q1, refCount = 2\<rparr> \<and>
             source_closes m3 = source_closes m \<and>
             map_of (subscriptions m3) n = Some \<lparr>queueEvents = q1, refCount = 1\<rparr> \<and>
             source_closes m4 = source_closes m @ [q1] \<and>
             map_of (subscriptions m4) n = None \<and>
             m5 = m4)"
    using e2 c3 e3 c4 e4 r5
    by (simp add: a1 a2 m3_def [symmetric] m4_def [symmetric])
  have "mux_inv (mux_run ops no_subscriptions)"
    by (rule mux_inv_run [OF mux_inv_empty])
  then have positive: "\<forall>(k, e) \<in> set (subscriptions (mux_run ops no_subscriptions)). 0 < refCount e"
    using mux_inv_entries by blast
  from scenario positive show ?thesis by (rule conjI)
qed

theorem refcount_discipline_witness:
  "map_of (subscriptions no_subscriptions) ''emails'' = None \<and>
   (let (q1, m1) = acquireQueueEvents ''emails'' conn1 None no_subscriptions;
        (q2, m2) = acquireQueueEvents ''emails'' conn2 (Some ''other'') m1;
        m3 = releaseQueueEvents ''emails'' m2;
        m4 = releaseQueueEvents ''emails'' m3;
        m5 = releaseQueueEvents ''emails'' m4
    in q1 = q2 \<and>
       map_of (subscriptions m2) ''emails'' = Some \<lparr>queueEvents = q1, refCount = 2\<rparr> \<and>
       source_closes m3 = source_closes no_subscriptions \<and>
       map_of (subscriptions m3) ''emails'' = Some \<lparr>queueEvents = q1, refCount = 1\<rparr> \<and>
       source_closes m4 = source_closes no_subscriptions @ [q1] \<and>
       map_of (subscriptions m4) ''emails'' = None \<and>
       m5 = m4) \<and>
   (''reports'', \<lparr>queueEvents = 1, refCount = 1\<rparr>) \<in> set (subscriptions
        (mux_run [Acquire ''emails'' conn1 None, Acquire ''reports'' conn1 None,
                  Release ''emails'', Release ''emails''] no_subscriptions)) \<and>
   0 < refCount \<lparr>queueEvents = 1, refCount = 1\<rparr>"
proof -
  have h: "map_of (subscriptions no_subscriptions) ''emails'' = None"
    by (simp add: no_subscriptions_def)
  have i: "(''reports'', \<lparr>queueEvents = 1, refCount = 1\<rparr>) \<in> set (subscriptions
        (mux_run [Acquire ''emails'' conn1 None, Acquire ''reports'' conn1 None,
                  Release ''emails'', Release ''emails''] no_subscriptions))"
    by code_simp
  show ?thesis
    using h i refcount_discipline [OF h, of conn1 None conn2 "Some ''other''"
        "[Acquire ''emails'' conn1 None, Acquire ''reports'' conn1 None,
          Release ''emails'', Release ''emails'']"]
    by blast
qed

text \<open>
  C10. When the multiplexer has an entry for the name, \<open>acquire\<close> returns the source of
  that entry and only increments its count: the result is the same for all connection
  options and prefixes, and no source is constructed. In particular, after a first
  \<open>acquire\<close> has created the entry, a second one with other options returns the first
  one's source, and the sources constructed are still only the one built from the first
  caller's options.
\<close>

theorem acquire_reuses_existing_source:
  "(map_of (subscriptions m) n = Some e \<longrightarrow>
      acquireQueueEvents n c p m =
        (queueEvents e,
         m\<lparr>subscriptions :=
              AList.update n (e\<lparr>refCount := refCount e + 1\<rparr>) (subscriptions m)\<rparr>) \<and>
      acquireQueueEvents n c p m = acquireQueueEvents n c' p' m \<and>
      sources (snd (acquireQueueEvents n c p m)) = sources m) \<and>
   (map_of (subscriptions m) n = None \<longrightarrow>
      fst (acquireQueueEvents n c' p' (snd (acquireQueueEvents n c p m))) =
        fst (acquireQueueEvents n c p m) \<and>
      sources (snd (acquireQueueEvents n c' p' (snd (acquireQueueEvents n c p m)))) =
        sources m @ [\<lparr>qe_name = n, qe_connection = c, qe_prefix = p\<rparr>])"
proof (intro conjI impI)
  assume e: "map_of (subscriptions m) n = Some e"
  show "acquireQueueEvents n c p m =
        (queueEvents e,
         m\<lparr>subscriptions :=
              AList.update n (e\<lparr>refCount := refCount e + 1\<rparr>) (subscriptions m)\<rparr>)"
    using e by (rule acquire_existing)
  show "acquireQueueEvents n c p m = acquireQueueEvents n c' p' m"
    using e by (simp add: acquire_existing)
  show "sources (snd (acquireQueueEvents n c p m)) = sources m"
    using e by (simp add: acquire_existing)
next
  assume a: "map_of (subscriptions m) n = None"
  let ?m1 = "snd (acquireQueueEvents n c p m)"
  have e1: "map_of (subscriptions ?m1) n = Some \<lparr>queueEvents = length (sources m), refCount = 1\<rparr>"
    using a by (simp add: acquire_new update_conv')
  show "fst (acquireQueueEvents n c' p' ?m1) = fst (acquireQueueEvents n c p m)"
    using a by (simp add: acquire_existing [OF e1], simp add: acquire_new)
  show "sources (snd (acquireQueueEvents n c' p' ?m1)) =
        sources m @ [\<lparr>qe_name = n, qe_connection = c, qe_prefix = p\<rparr>]"
    using a by (simp add: acquire_existing [OF e1], simp add: acquire_new)
qed

theorem acquire_reuses_existing_source_witness:
  "map_of (subscriptions no_subscriptions) ''emails'' = None \<and>
   map_of (subscriptions (snd (acquireQueueEvents ''emails'' conn1 None no_subscriptions))) ''emails'' =
     Some \<lparr>queueEvents = 0, refCount = 1\<rparr> \<and>
   acquireQueueEvents ''emails'' conn2 (Some ''other'')
       (snd (acquireQueueEvents ''emails'' conn1 None no_subscriptions)) =
     acquireQueueEvents ''emails'' conn1 None
       (snd (acquireQueueEvents ''emails'' conn1 None no_subscriptions)) \<and>
   sources (snd (acquireQueueEvents ''emails'' conn2 (Some ''other'')
       (snd (acquireQueueEvents ''emails'' conn1 None no_subscriptions)))) =
     sources no_subscriptions @
       [\<lparr>qe_name = ''emails'', qe_connection = conn1, qe_prefix = None\<rparr>]"
proof -
  let ?m1 = "snd (acquireQueueEvents ''emails'' conn1 None no_subscriptions)"
  have h: "map_of (subscriptions no_subscriptions) ''emails'' = None"
    by (simp add: no_subscriptions_def)
  have e: "map_of (subscriptions ?m1) ''emails'' = Some \<lparr>queueEvents = 0, refCount = 1\<rparr>"
    by (simp add: acquireQueueEvents_def no_subscriptions_def)
  show ?thesis
    using h e
      acquire_reuses_existing_source [of ?m1 "''emails''" "\<lparr>queueEvents = 0, refCount = 1\<rparr>"
        conn2 "Some ''other''" conn1 None]
      acquire_reuses_existing_source [of no_subscriptions "''emails''" "\<lparr>queueEvents = 0, refCount = 1\<rparr>"
        conn1 None conn2 "Some ''other''"]
    by blast
qed

subsection \<open>The polling session\<close>

lemma changed_Cons:
  "changed base ((st, c) # cs) =
     (if c \<noteq> previous base st then (st, c) # changed base cs else changed base cs)"
  by (simp add: changed_def)

lemma changed_Nil: "changed base [] = []"
  by (simp add: changed_def)

lemma write_deltas_fields:
  "lastCounts (snd (write_deltas name bad cs s)) = lastCounts s \<and>
   p_running (snd (write_deltas name bad cs s)) = p_running s"
proof (induction cs arbitrary: s)
  case Nil
  show ?case by simp
next
  case (Cons a cs)
  obtain st c where a: "a = (st, c)" by (cases a)
  let ?s' = "s\<lparr>p_eventId := p_eventId s + 1,
                p_written := p_written s @
                  [\<lparr>event = ''counts'', data = CountsData name st c (previous (lastCounts s) st),
                   sse_id = decimal_string (p_eventId s)\<rparr>]\<rparr>"
  show ?case
  proof (cases "c \<noteq> previous (lastCounts s) st")
    case False
    then show ?thesis using Cons.IH [of s] a by simp
  next
    case True
    then show ?thesis using Cons.IH [of ?s'] a
      by (cases "p_eventId s \<in> set bad") (simp_all add: Let_def)
  qed
qed

lemma write_deltas_ok:
  "\<forall>i \<in> set bad. i < p_eventId s \<or> p_eventId s + length (changed (lastCounts s) cs) \<le> i \<Longrightarrow>
     write_deltas name bad cs s =
       (True, s\<lparr>p_eventId := p_eventId s + length (changed (lastCounts s) cs),
               p_written := p_written s @
                 delta_frames name (lastCounts s) (p_eventId s) (changed (lastCounts s) cs)\<rparr>)"
proof (induction cs arbitrary: s)
  case Nil
  show ?case by (simp add: changed_Nil)
next
  case (Cons a cs)
  obtain st c where a: "a = (st, c)" by (cases a)
  show ?case
  proof (cases "c \<noteq> previous (lastCounts s) st")
    case False
    then show ?thesis using Cons a by (simp add: changed_Cons)
  next
    case True
    let ?s' = "s\<lparr>p_eventId := p_eventId s + 1,
                  p_written := p_written s @
                    [\<lparr>event = ''counts'', data = CountsData name st c (previous (lastCounts s) st),
                     sse_id = decimal_string (p_eventId s)\<rparr>]\<rparr>"
    have good: "p_eventId s \<notin> set bad"
      using Cons.prems True a by (fastforce simp: changed_Cons)
    have rest: "\<forall>i \<in> set bad. i < p_eventId ?s' \<or>
                  p_eventId ?s' + length (changed (lastCounts ?s') cs) \<le> i"
      using Cons.prems True a by (fastforce simp: changed_Cons)
    show ?thesis
      using True a good Cons.IH [OF rest]
      by (simp add: changed_Cons Let_def)
  qed
qed

lemma write_deltas_prefix:
  "\<exists>j. p_written (snd (write_deltas name bad cs s)) =
         p_written s @ take j (delta_frames name (lastCounts s) (p_eventId s)
                                  (changed (lastCounts s) cs))"
proof (induction cs arbitrary: s)
  case Nil
  show ?case by (simp add: changed_Nil)
next
  case (Cons a cs)
  obtain st c where a: "a = (st, c)" by (cases a)
  show ?case
  proof (cases "c \<noteq> previous (lastCounts s) st")
    case False
    then show ?thesis using Cons.IH [of s] a by (simp add: changed_Cons)
  next
    case True
    let ?f = "\<lparr>event = ''counts'', data = CountsData name st c (previous (lastCounts s) st),
               sse_id = decimal_string (p_eventId s)\<rparr>"
    let ?s' = "s\<lparr>p_eventId := p_eventId s + 1, p_written := p_written s @ [?f]\<rparr>"
    show ?thesis
    proof (cases "p_eventId s \<in> set bad")
      case True
      have "p_written (snd (write_deltas name bad (a # cs) s)) =
              p_written s @ take 1 (delta_frames name (lastCounts s) (p_eventId s)
                                      (changed (lastCounts s) (a # cs)))"
        using True \<open>c \<noteq> previous (lastCounts s) st\<close> a by (simp add: changed_Cons Let_def)
      then show ?thesis by blast
    next
      case False
      from Cons.IH [of ?s'] obtain j where
        j: "p_written (snd (write_deltas name bad cs ?s')) =
              p_written ?s' @ take j (delta_frames name (lastCounts ?s') (p_eventId ?s')
                                        (changed (lastCounts ?s') cs))"
        by blast
      have "p_written (snd (write_deltas name bad (a # cs) s)) =
              p_written s @ take (Suc j) (delta_frames name (lastCounts s) (p_eventId s)
                                      (changed (lastCounts s) (a # cs)))"
        using False \<open>c \<noteq> previous (lastCounts s) st\<close> a j by (simp add: changed_Cons Let_def)
      then show ?thesis by blast
    qed
  qed
qed

lemma write_deltas_none:
  "changed (lastCounts s) cs = [] \<Longrightarrow> write_deltas name bad cs s = (True, s)"
proof -
  assume none: "changed (lastCounts s) cs = []"
  then have "\<forall>i \<in> set bad. i < p_eventId s \<or>
               p_eventId s + length (changed (lastCounts s) cs) \<le> i"
    by auto
  from write_deltas_ok [OF this, of name] none show ?thesis by simp
qed

lemma write_deltas_single:
  "changed (lastCounts s) cs = [(st, c)] \<Longrightarrow>
     p_written (snd (write_deltas name bad cs s)) =
       p_written s @ [\<lparr>event = ''counts'', data = CountsData name st c (previous (lastCounts s) st),
                        sse_id = decimal_string (p_eventId s)\<rparr>]"
proof (induction cs arbitrary: s)
  case Nil
  then show ?case by (simp add: changed_Nil)
next
  case (Cons a cs)
  obtain st' c' where a: "a = (st', c')" by (cases a)
  show ?case
  proof (cases "c' \<noteq> previous (lastCounts s) st'")
    case False
    then show ?thesis using Cons a by (simp add: changed_Cons)
  next
    case True
    then have eq: "st' = st" "c' = c" and rest: "changed (lastCounts s) cs = []"
      using Cons.prems a by (simp_all add: changed_Cons)
    let ?s' = "s\<lparr>p_eventId := p_eventId s + 1,
                  p_written := p_written s @
                    [\<lparr>event = ''counts'', data = CountsData name st c (previous (lastCounts s) st),
                     sse_id = decimal_string (p_eventId s)\<rparr>]\<rparr>"
    have "write_deltas name bad cs ?s' = (True, ?s')"
      using rest by (simp add: write_deltas_none)
    then show ?thesis using True a eq by (simp add: Let_def)
  qed
qed

lemma delta_frames_data:
  "f \<in> set (delta_frames name base k ds) \<Longrightarrow>
     \<exists>st c. (st, c) \<in> set ds \<and> data f = CountsData name st c (previous base st)"
proof (induction ds arbitrary: k)
  case Nil
  then show ?case by simp
next
  case (Cons a ds)
  obtain st c where a: "a = (st, c)" by (cases a)
  from Cons.prems a have
    "f = \<lparr>event = ''counts'', data = CountsData name st c (previous base st),
          sse_id = decimal_string k\<rparr> \<or> f \<in> set (delta_frames name base (k + 1) ds)"
    by simp
  then show ?case
  proof
    assume "f = \<lparr>event = ''counts'', data = CountsData name st c (previous base st),
                 sse_id = decimal_string k\<rparr>"
    then have "(st, c) \<in> set (a # ds) \<and> data f = CountsData name st c (previous base st)"
      using a by simp
    then show ?thesis by blast
  next
    assume "f \<in> set (delta_frames name base (k + 1) ds)"
    from Cons.IH [OF this] obtain st' c' where
      "(st', c') \<in> set ds" "data f = CountsData name st' c' (previous base st')" by blast
    then have "(st', c') \<in> set (a # ds) \<and> data f = CountsData name st' c' (previous base st')"
      by simp
    then show ?thesis by blast
  qed
qed

lemma changed_subset: "(st, c) \<in> set (changed base cs) \<Longrightarrow> (st, c) \<in> set cs \<and> c \<noteq> previous base st"
  by (simp add: changed_def)

lemma poll_tick_read:
  assumes "read t = Some cs" "p_running s" "\<not> abort_in_read t"
  shows "poll_tick name t s =
           (case write_deltas name (failing t) cs s of
              (False, s2) \<Rightarrow> (Some WriteFailed, s2)
            | (True, s2) \<Rightarrow>
                (if sleep_ok t then None else Some SleepFailed,
                 s2\<lparr>lastCounts := cs, p_running := p_running s2 \<and> \<not> abort_later t\<rparr>))"
proof -
  have same: "s\<lparr>p_running := True\<rparr> = s" using assms(2) by simp
  show ?thesis
    unfolding poll_tick_def using assms
    by (simp add: Let_def same split: prod.splits bool.splits)
qed

lemma poll_tick_written:
  assumes "read t = Some cs" "p_running s" "\<not> abort_in_read t"
  shows "p_written (snd (poll_tick name t s)) =
           p_written (snd (write_deltas name (failing t) cs s))"
  by (cases "write_deltas name (failing t) cs s")
     (simp add: poll_tick_read [OF assms] split: bool.splits)

lemma tick_frames_prefix:
  assumes "read t = Some cs" "p_running s" "\<not> abort_in_read t"
  shows "\<exists>j. tick_frames name t s =
           take j (delta_frames name (lastCounts s) (p_eventId s) (changed (lastCounts s) cs))"
proof -
  from write_deltas_prefix [of name "failing t" cs s] obtain j where
    j: "p_written (snd (write_deltas name (failing t) cs s)) =
          p_written s @ take j (delta_frames name (lastCounts s) (p_eventId s)
                                  (changed (lastCounts s) cs))" by blast
  have "tick_frames name t s =
          take j (delta_frames name (lastCounts s) (p_eventId s) (changed (lastCounts s) cs))"
    using j by (simp add: tick_frames_def poll_tick_written [OF assms])
  then show ?thesis by blast
qed

lemma previous_initial: "previous initial_counts st = 0"
  by (simp add: previous_def initial_counts_def)

lemma changed_initial: "changed initial_counts cs = filter (\<lambda>(st, c). c \<noteq> 0) cs"
  by (simp add: changed_def previous_initial)

lemma tick_frames_ok:
  assumes "read t = Some cs" "p_running s" "\<not> abort_in_read t" "failing t = []"
  shows "tick_frames name t s =
           delta_frames name (lastCounts s) (p_eventId s) (changed (lastCounts s) cs)"
    and "sleep_ok t \<Longrightarrow> fst (poll_tick name t s) = None"
proof -
  have w: "write_deltas name (failing t) cs s =
       (True, s\<lparr>p_eventId := p_eventId s + length (changed (lastCounts s) cs),
               p_written := p_written s @
                 delta_frames name (lastCounts s) (p_eventId s) (changed (lastCounts s) cs)\<rparr>)"
    using assms(4) by (simp add: write_deltas_ok)
  show "tick_frames name t s =
           delta_frames name (lastCounts s) (p_eventId s) (changed (lastCounts s) cs)"
    by (simp add: tick_frames_def poll_tick_written [OF assms(1,2,3)] w)
  show "fst (poll_tick name t s) = None" if "sleep_ok t"
    using that by (simp add: poll_tick_read [OF assms(1,2,3)] w)
qed

lemma tick_baseline:
  assumes "read t = Some cs" "p_running s" "\<not> abort_in_read t"
    and "fst (poll_tick name t s) = None"
  shows "lastCounts (snd (poll_tick name t s)) = cs"
proof (cases "write_deltas name (failing t) cs s")
  case (Pair ok s2)
  then show ?thesis using assms(4)
    by (cases ok) (simp_all add: poll_tick_read [OF assms(1,2,3)])
qed

lemma tick_frames_unchanged_state:
  assumes "read t = Some cs" "p_running s" "\<not> abort_in_read t" "distinct (map fst cs)"
    and "(st, c) \<in> set cs" "c = previous (lastCounts s) st"
    and "f \<in> set (tick_frames name t s)"
  shows "data f \<noteq> CountsData name st c' p"
proof
  assume d: "data f = CountsData name st c' p"
  from tick_frames_prefix [OF assms(1,2,3), of name] obtain j where
    "tick_frames name t s =
       take j (delta_frames name (lastCounts s) (p_eventId s) (changed (lastCounts s) cs))"
    by blast
  then have "f \<in> set (delta_frames name (lastCounts s) (p_eventId s) (changed (lastCounts s) cs))"
    using assms(7) by (auto dest: in_set_takeD)
  from delta_frames_data [OF this] obtain st' c'' where
    m: "(st', c'') \<in> set (changed (lastCounts s) cs)"
    and d': "data f = CountsData name st' c'' (previous (lastCounts s) st')"
    by blast
  from d d' have "st' = st" by simp
  with m have "(st, c'') \<in> set cs" and ne: "c'' \<noteq> previous (lastCounts s) st"
    using changed_subset by blast+
  then have "c'' = c" using assms(4,5) by (meson eq_key_imp_eq_value)
  then show False using ne assms(6) by simp
qed

text \<open>
  C7. In a pass of the polling loop in which the counts were read and the session was not
  aborted meanwhile: no frame is written for a state whose count equals its baseline, and
  none at all when no count differs; when exactly one entry differs, exactly one frame is
  written, a \<open>counts\<close> event whose data holds the queue, the state, the new count and the
  baseline, with the next id; whenever the loop goes on to another pass, the baseline is
  the counts just read, for all states; and when no write fails and the sleep resolves, the
  loop does go on, having written one frame per changed entry.
\<close>

theorem poll_tick_deltas:
  assumes "read t = Some cs" and "p_running s" and "\<not> abort_in_read t"
    and "distinct (map fst cs)"
  shows "(\<forall>(st, c) \<in> set cs. c = previous (lastCounts s) st \<longrightarrow>
            (\<forall>f \<in> set (tick_frames name t s). \<forall>c' p. data f \<noteq> CountsData name st c' p)) \<and>
         (changed (lastCounts s) cs = [] \<longrightarrow> tick_frames name t s = []) \<and>
         (\<forall>st c. changed (lastCounts s) cs = [(st, c)] \<longrightarrow>
            tick_frames name t s =
              [\<lparr>event = ''counts'',
                data = CountsData name st c (previous (lastCounts s) st),
                sse_id = decimal_string (p_eventId s)\<rparr>]) \<and>
         (fst (poll_tick name t s) = None \<longrightarrow> lastCounts (snd (poll_tick name t s)) = cs) \<and>
         (failing t = [] \<and> sleep_ok t \<longrightarrow>
            fst (poll_tick name t s) = None \<and>
            tick_frames name t s =
              delta_frames name (lastCounts s) (p_eventId s) (changed (lastCounts s) cs))"
proof -
  note run = assms(1,2,3)
  have a: "\<forall>(st, c) \<in> set cs. c = previous (lastCounts s) st \<longrightarrow>
            (\<forall>f \<in> set (tick_frames name t s). \<forall>c' p. data f \<noteq> CountsData name st c' p)"
    using tick_frames_unchanged_state [OF assms] by blast
  have b: "changed (lastCounts s) cs = [] \<longrightarrow> tick_frames name t s = []"
    using tick_frames_prefix [OF run, of name] by auto
  have c: "\<forall>st c. changed (lastCounts s) cs = [(st, c)] \<longrightarrow>
            tick_frames name t s =
              [\<lparr>event = ''counts'',
                data = CountsData name st c (previous (lastCounts s) st),
                sse_id = decimal_string (p_eventId s)\<rparr>]"
    by (simp add: tick_frames_def poll_tick_written [OF run] write_deltas_single)
  have d: "fst (poll_tick name t s) = None \<longrightarrow> lastCounts (snd (poll_tick name t s)) = cs"
    using tick_baseline [OF run] by blast
  have e: "failing t = [] \<and> sleep_ok t \<longrightarrow>
            fst (poll_tick name t s) = None \<and>
            tick_frames name t s =
              delta_frames name (lastCounts s) (p_eventId s) (changed (lastCounts s) cs)"
    using tick_frames_ok [OF run] by blast
  from a b c d e show ?thesis by blast
qed

theorem poll_tick_deltas_witness:
  "read (quiet_tick one_change) = Some one_change \<and>
   p_running polling_session \<and>
   \<not> abort_in_read (quiet_tick one_change) \<and>
   distinct (map fst one_change) \<and>
   changed (lastCounts polling_session) one_change = [(''active'', 1)] \<and>
   tick_frames ''emails'' (quiet_tick one_change) polling_session =
     [\<lparr>event = ''counts'',
       data = CountsData ''emails'' ''active'' 1 (previous (lastCounts polling_session) ''active''),
       sse_id = decimal_string (p_eventId polling_session)\<rparr>] \<and>
   previous (lastCounts polling_session) ''active'' = 0 \<and>
   fst (poll_tick ''emails'' (quiet_tick one_change) polling_session) = None \<and>
   lastCounts (snd (poll_tick ''emails'' (quiet_tick one_change) polling_session)) = one_change"
proof -
  have h1: "read (quiet_tick one_change) = Some one_change" by (simp add: quiet_tick_def)
  have h2: "p_running polling_session" by (simp add: polling_session_def)
  have h3: "\<not> abort_in_read (quiet_tick one_change)" by (simp add: quiet_tick_def)
  have h4: "distinct (map fst one_change)" by (simp add: one_change_def)
  have h5: "changed (lastCounts polling_session) one_change = [(''active'', 1)]"
    by (simp add: changed_def previous_def polling_session_def busy_counts_def one_change_def)
  have h6: "failing (quiet_tick one_change) = [] \<and> sleep_ok (quiet_tick one_change)"
    by (simp add: quiet_tick_def)
  have h7: "previous (lastCounts polling_session) ''active'' = 0"
    by (simp add: previous_def polling_session_def busy_counts_def)
  note T = poll_tick_deltas [OF h1 h2 h3 h4, of "''emails''"]
  note single = T [THEN conjunct2, THEN conjunct2, THEN conjunct1, rule_format, OF h5]
  note all_ok = T [THEN conjunct2, THEN conjunct2, THEN conjunct2, THEN conjunct2,
                   rule_format, OF h6]
  note goes_on = all_ok [THEN conjunct1]
  note baseline = T [THEN conjunct2, THEN conjunct2, THEN conjunct2, THEN conjunct1,
                     rule_format, OF goes_on]
  show ?thesis
    by (intro conjI)
       (fact h1, fact h2, fact h3, fact h4, fact h5, fact single, fact h7, fact goes_on,
        fact baseline)
qed

text \<open>
  C6 as stated fails: the session does not read the counts when it opens. Its baseline is
  the literal with 0 for every state, so a queue that has three waiting jobs when the
  session opens yields a delta frame, from 0 to 3, on the first pass.
\<close>

theorem baseline_not_read_at_open_counterexample:
  "fst (createTestingSSE ''emails'' example_registry) = Inr (0, open_session) \<and>
   lastCounts open_session \<noteq> busy_counts \<and>
   tick_frames ''emails'' (quiet_tick busy_counts) open_session =
     [\<lparr>event = ''counts'', data = CountsData ''emails'' ''waiting'' 3 0, sse_id = ''0''\<rparr>]"
proof -
  have a: "fst (createTestingSSE ''emails'' example_registry) = Inr (0, open_session)"
    by (simp add: createTestingSSE_def get_def property_def example_registry_def example_config_def
          truthy_def createTestEntry_def alloc_def Let_def open_session_def)
  have b: "lastCounts open_session \<noteq> busy_counts"
    by (simp add: open_session_def initial_counts_def busy_counts_def)
  have c: "tick_frames ''emails'' (quiet_tick busy_counts) open_session =
     [\<lparr>event = ''counts'', data = CountsData ''emails'' ''waiting'' 3 0, sse_id = ''0''\<rparr>]"
    by (simp add: tick_frames_def poll_tick_def quiet_tick_def open_session_def busy_counts_def
          initial_counts_def previous_def Let_def digit_def)
  from a b c show ?thesis by blast
qed

text \<open>
  C6, amended. A polling session opens with the baseline 0 for each of the states waiting,
  active, completed, failed and delayed (and 0 for any other state), reading nothing from
  the queue; on the first pass, if no write fails, it writes one frame for every entry
  whose count is not 0, with 0 as the previous value, and none for the entries that are 0.
\<close>

theorem polling_baseline_starts_at_zero:
  assumes "createTestingSSE name r = (Inr (q, s0), r')"
  shows "s0 = open_session \<and>
         lastCounts s0 = initial_counts \<and>
         (\<forall>st. previous (lastCounts s0) st = 0) \<and>
         (\<forall>t cs. read t = Some cs \<and> \<not> abort_in_read t \<and> failing t = [] \<longrightarrow>
            tick_frames name t s0 =
              delta_frames name initial_counts 0 (filter (\<lambda>(st, c). c \<noteq> 0) cs))"
proof -
  have s0: "s0 = open_session"
    using assms by (auto simp: createTestingSSE_def open_session_def split: prod.splits sum.splits)
  have f: "tick_frames name t open_session =
              delta_frames name initial_counts 0 (filter (\<lambda>(st, c). c \<noteq> 0) cs)"
    if "read t = Some cs" "\<not> abort_in_read t" "failing t = []" for t cs
  proof -
    have r: "p_running open_session" by (simp add: open_session_def)
    show ?thesis
      using tick_frames_ok(1) [OF that(1) r that(2,3), of name]
      by (simp add: open_session_def changed_initial)
  qed
  show ?thesis using s0 f by (simp add: open_session_def previous_initial)
qed

theorem polling_baseline_starts_at_zero_witness:
  "createTestingSSE ''emails'' example_registry =
     (Inr (0, open_session), snd (get ''emails'' example_registry)) \<and>
   lastCounts open_session = initial_counts \<and>
   read (quiet_tick busy_counts) = Some busy_counts \<and>
   \<not> abort_in_read (quiet_tick busy_counts) \<and>
   failing (quiet_tick busy_counts) = [] \<and>
   tick_frames ''emails'' (quiet_tick busy_counts) open_session =
     delta_frames ''emails'' initial_counts 0 (filter (\<lambda>(st, c). c \<noteq> 0) busy_counts)"
proof -
  have h: "createTestingSSE ''emails'' example_registry =
     (Inr (0, open_session), snd (get ''emails'' example_registry))"
    by (simp add: createTestingSSE_def get_def property_def example_registry_def example_config_def
          truthy_def createTestEntry_def alloc_def Let_def open_session_def)
  have t: "read (quiet_tick busy_counts) = Some busy_counts \<and>
           \<not> abort_in_read (quiet_tick busy_counts) \<and> failing (quiet_tick busy_counts) = []"
    by (simp add: quiet_tick_def)
  show ?thesis using h t polling_baseline_starts_at_zero [OF h] by blast
qed

subsection \<open>Frame ids\<close>

lemma digit_values:
  "map (\<lambda>d. digit_value (digit d)) [0, 1, 2, 3, 4, 5, 6, 7, 8, 9] = [0, 1, 2, 3, 4, 5, 6, 7, 8, 9]"
  by (simp add: digit_def digit_value_def)

lemma digit_value_digit: assumes "d < 10" shows "digit_value (digit d) = d"
proof -
  have u: "[0..<10] = [0, 1, 2, 3, 4, 5, 6, 7, 8, 9 :: nat]" by (simp add: upt_rec)
  have "map (\<lambda>d. digit_value (digit d)) [0..<10] ! d = [0..<10] ! d"
    unfolding u digit_values ..
  then show ?thesis using assms by simp
qed

lemma id_value_snoc: "id_value (cs @ [c]) = 10 * id_value cs + digit_value c"
  by (simp add: id_value_def)

lemma id_value_decimal_string: "id_value (decimal_string n) = n"
proof (induction n rule: decimal_string.induct)
  case (1 n)
  show ?case
  proof (cases "n < 10")
    case True
    then show ?thesis by (simp add: id_value_def digit_value_digit)
  next
    case False
    then have "id_value (decimal_string n) = 10 * id_value (decimal_string (n div 10)) + n mod 10"
      by (subst decimal_string.simps) (simp add: id_value_snoc digit_value_digit)
    then show ?thesis using 1 False by simp
  qed
qed

lemma ids_in_order_numbers:
  "ids_in_order fs \<Longrightarrow> map (\<lambda>f. id_value (sse_id f)) fs = [0..<length fs]"
proof -
  assume "ids_in_order fs"
  then have "map sse_id fs = map decimal_string [0..<length fs]" by (simp add: ids_in_order_def)
  then have "map id_value (map sse_id fs) = map id_value (map decimal_string [0..<length fs])" by simp
  then show ?thesis by (simp add: comp_def id_value_decimal_string del: decimal_string.simps)
qed

subsection \<open>The live sessions\<close>

lemma ids_in_order_Nil: "ids_in_order []"
  by (simp add: ids_in_order_def)

lemma ids_in_order_snoc:
  "ids_in_order fs \<Longrightarrow> sse_id f = decimal_string (length fs) \<Longrightarrow> ids_in_order (fs @ [f])"
  by (simp add: ids_in_order_def)

lemma session_ok_writeSSE: "session_ok x \<Longrightarrow> session_ok (writeSSE ev d x)"
  by (simp add: session_ok_def writeSSE_def ids_in_order_snoc)

lemma wrote_refl: "wrote x x"
  by (simp add: wrote_def)

lemma wrote_trans: "wrote x y \<Longrightarrow> wrote y z \<Longrightarrow> wrote x z"
  by (simp add: wrote_def)

lemma wrote_handler_call: "wrote x (handler_call t args x)"
  by (simp add: wrote_def handler_call_def session_ok_writeSSE) (simp add: writeSSE_def)

lemma emit_deliver: "emit src eventType args s =
    s\<lparr>sessions := fold (deliver src eventType args) (attached s) (sessions s)\<rparr>"
  by (simp add: emit_def deliver_def)

lemma deliver_wrote:
  "length (deliver src ty args a xs) = length xs \<and>
   (\<forall>i < length xs. wrote (xs ! i) (deliver src ty args a xs ! i))"
proof -
  obtain q ev sid t where a: "a = (q, ev, (sid, t))" by (cases a) auto
  show ?thesis
    unfolding a deliver_def
    by (auto simp: nth_list_update wrote_refl wrote_handler_call)
qed

lemma fold_deliver_wrote:
  "length (fold (deliver src ty args) as xs) = length xs \<and>
   (\<forall>i < length xs. wrote (xs ! i) (fold (deliver src ty args) as xs ! i))"
proof (induction as arbitrary: xs)
  case Nil
  show ?case by (simp add: wrote_refl)
next
  case (Cons a as)
  let ?ys = "deliver src ty args a xs"
  have d: "length ?ys = length xs" "\<forall>i < length xs. wrote (xs ! i) (?ys ! i)"
    using deliver_wrote [of src ty args a xs] by simp_all
  have f: "length (fold (deliver src ty args) as ?ys) = length ?ys"
          "\<forall>i < length ?ys. wrote (?ys ! i) (fold (deliver src ty args) as ?ys ! i)"
    using Cons.IH [of ?ys] by simp_all
  show ?case using d f by (auto intro: wrote_trans)
qed

lemma emit_sessions:
  "length (sessions (emit src ty args s)) = length (sessions s)"
  "i < length (sessions s) \<Longrightarrow> wrote (sessions s ! i) (sessions (emit src ty args s) ! i)"
  "attached (emit src ty args s) = attached s"
  "mux (emit src ty args s) = mux s"
  using fold_deliver_wrote [of src ty args "attached s" "sessions s"]
  by (simp_all add: emit_deliver)

lemma session_ok_fields:
  "session_ok (x\<lparr>l_phase := p\<rparr>) = session_ok x"
  "session_ok (x\<lparr>l_running := b\<rparr>) = session_ok x"
  by (simp_all add: session_ok_def)

lemma ids_inv_cleanup: "ids_inv s \<Longrightarrow> sid < length (sessions s) \<Longrightarrow> ids_inv (cleanup sid s)"
  by (simp add: cleanup_def Let_def ids_inv_def nth_list_update session_ok_fields)

lemma ids_inv_loop_top: "ids_inv s \<Longrightarrow> sid < length (sessions s) \<Longrightarrow> ids_inv (loop_top now sid s)"
  by (simp add: loop_top_def Let_def ids_inv_cleanup)
     (simp add: ids_inv_def nth_list_update session_ok_fields session_ok_writeSSE)

lemma ids_inv_create: assumes "ids_inv s" shows "ids_inv (createLiveSSE name conn pre now s)"
proof (cases conn)
  case None
  then show ?thesis using assms by (simp add: createLiveSSE_def)
next
  case (Some c)
  obtain qe m where a: "acquireQueueEvents name c pre (mux s) = (qe, m)"
    by (cases "acquireQueueEvents name c pre (mux s)")
  let ?x = "\<lparr>l_name = name, l_queueEvents = qe, l_eventId = 0, l_running = True,
             l_listeners = map (\<lambda>t. (t, (length (sessions s), t))) eventTypes,
             l_written = [], l_phase = AwaitWrite\<rparr>"
  let ?s1 = "s\<lparr>mux := m,
               attached := attached s @
                 map (\<lambda>(t, h). (qe, t, h)) (map (\<lambda>t. (t, (length (sessions s), t))) eventTypes),
               sessions := sessions s @ [?x]\<rparr>"
  have ok: "session_ok ?x" by (simp add: session_ok_def ids_in_order_Nil)
  have "ids_inv ?s1" using assms ok by (auto simp: ids_inv_def nth_append less_Suc_eq)
  then have "ids_inv (loop_top now (length (sessions s)) ?s1)"
    by (rule ids_inv_loop_top) simp
  then show ?thesis using Some a by (simp add: createLiveSSE_def Let_def)
qed

lemma ids_inv_emit: assumes "ids_inv s" shows "ids_inv (emit src ty args s)"
  unfolding ids_inv_def
proof (intro allI impI)
  fix i
  assume "i < length (sessions (emit src ty args s))"
  then have i: "i < length (sessions s)" by (simp add: emit_sessions(1))
  from emit_sessions(2) [OF i] have "wrote (sessions s ! i) (sessions (emit src ty args s) ! i)" .
  with assms i show "session_ok (sessions (emit src ty args s) ! i)"
    by (simp add: ids_inv_def wrote_def)
qed

lemma ids_inv_step: "ids_inv s \<Longrightarrow> ids_inv (step e s)"
proof (cases e)
  case (Open name conn pre now)
  assume "ids_inv s" then show ?thesis using Open by (simp add: ids_inv_create)
next
  case (Emit src ty args)
  assume "ids_inv s" then show ?thesis using Emit by (simp add: ids_inv_emit)
next
  case (Abort sid)
  assume "ids_inv s" then show ?thesis using Abort
    by (simp add: ids_inv_def nth_list_update session_ok_fields)
next
  case (WriteSettled sid ok)
  assume "ids_inv s" then show ?thesis using WriteSettled
    by (simp add: ids_inv_cleanup) (simp add: ids_inv_def nth_list_update session_ok_fields)
next
  case (SleepSettled sid ok now)
  assume "ids_inv s" then show ?thesis using SleepSettled
    by (simp add: ids_inv_cleanup ids_inv_loop_top)
qed

lemma ids_inv_steps: "ids_inv s \<Longrightarrow> ids_inv (steps es s)"
  by (induction es arbitrary: s) (simp_all add: ids_inv_step)

lemma ids_inv_init: "ids_inv no_sessions"
  by (simp add: ids_inv_def no_sessions_def)

lemma poll_ok_write_deltas: "poll_ok s \<Longrightarrow> poll_ok (snd (write_deltas name bad cs s))"
proof (induction cs arbitrary: s)
  case Nil
  then show ?case by simp
next
  case (Cons a cs)
  obtain st c where a: "a = (st, c)" by (cases a)
  let ?s' = "s\<lparr>p_eventId := p_eventId s + 1,
                p_written := p_written s @
                  [\<lparr>event = ''counts'', data = CountsData name st c (previous (lastCounts s) st),
                   sse_id = decimal_string (p_eventId s)\<rparr>]\<rparr>"
  have ok': "poll_ok ?s'" using Cons.prems by (simp add: poll_ok_def ids_in_order_snoc)
  show ?case
  proof (cases "c \<noteq> previous (lastCounts s) st")
    case False
    then show ?thesis using Cons a by simp
  next
    case True
    then show ?thesis using Cons.IH [OF ok'] ok' a
      by (cases "p_eventId s \<in> set bad") (simp_all add: Let_def)
  qed
qed

lemma poll_ok_fields:
  "poll_ok (s\<lparr>p_running := b\<rparr>) = poll_ok s"
  "poll_ok (s\<lparr>lastCounts := cs\<rparr>) = poll_ok s"
  by (simp_all add: poll_ok_def)

lemma poll_tick_cases:
  "snd (poll_tick name t s) = s\<lparr>p_running := p_running s \<and> \<not> abort_in_read t\<rparr> \<or>
   (\<exists>cs. snd (poll_tick name t s) =
      snd (write_deltas name (failing t) cs (s\<lparr>p_running := p_running s \<and> \<not> abort_in_read t\<rparr>))) \<or>
   (\<exists>cs b. snd (poll_tick name t s) =
      (snd (write_deltas name (failing t) cs (s\<lparr>p_running := p_running s \<and> \<not> abort_in_read t\<rparr>)))
        \<lparr>lastCounts := cs, p_running := b\<rparr>)"
proof -
  define s1 where "s1 = s\<lparr>p_running := p_running s \<and> \<not> abort_in_read t\<rparr>"
  have eq: "poll_tick name t s =
     (case read t of
        None \<Rightarrow> (Some ReadFailed, s1)
      | Some cs \<Rightarrow>
          if \<not> p_running s1 then (Some Aborted, s1)
          else (case write_deltas name (failing t) cs s1 of
                  (False, s2) \<Rightarrow> (Some WriteFailed, s2)
                | (True, s2) \<Rightarrow>
                    (if sleep_ok t then None else Some SleepFailed,
                     s2\<lparr>lastCounts := cs, p_running := p_running s2 \<and> \<not> abort_later t\<rparr>)))"
    unfolding poll_tick_def Let_def s1_def
    by (auto split: option.splits prod.splits bool.splits)
  show ?thesis
  proof (cases "read t")
    case None
    then show ?thesis unfolding eq s1_def [symmetric] by simp
  next
    case (Some cs)
    show ?thesis
    proof (cases "p_running s1")
      case False
      then show ?thesis unfolding eq s1_def [symmetric] using Some by simp
    next
      case True
      obtain ok s2 where w: "write_deltas name (failing t) cs s1 = (ok, s2)"
        by (cases "write_deltas name (failing t) cs s1")
      have "snd (poll_tick name t s) = s2 \<or>
            snd (poll_tick name t s) =
              s2\<lparr>lastCounts := cs, p_running := p_running s2 \<and> \<not> abort_later t\<rparr>"
        unfolding eq using Some True w by (cases ok) simp_all
      then show ?thesis
        unfolding s1_def [symmetric] using w by (metis snd_conv)
    qed
  qed
qed

lemma poll_ok_tick: assumes "poll_ok s" shows "poll_ok (snd (poll_tick name t s))"
proof -
  let ?s1 = "s\<lparr>p_running := p_running s \<and> \<not> abort_in_read t\<rparr>"
  have ok1: "poll_ok ?s1" using assms by (simp add: poll_ok_fields)
  have ok2: "poll_ok (snd (write_deltas name (failing t) cs ?s1))" for cs
    by (rule poll_ok_write_deltas [OF ok1])
  have ok3: "poll_ok ((snd (write_deltas name (failing t) cs ?s1))\<lparr>lastCounts := cs', p_running := b\<rparr>)"
    for cs cs' b
    using ok2 [of cs] by (simp add: poll_ok_def)
  from poll_tick_cases [of name t s] show ?thesis
    using ok1 ok2 ok3 by (elim disjE exE) simp_all
qed

lemma poll_ok_loop: "poll_ok s \<Longrightarrow> poll_ok (snd (testing_loop name ts s))"
proof (induction ts arbitrary: s)
  case Nil
  then show ?case by simp
next
  case (Cons t ts)
  obtain r s' where p: "poll_tick name t s = (r, s')" by (cases "poll_tick name t s")
  have "poll_ok s'" using poll_ok_tick [OF Cons.prems, of name t] p by simp
  then show ?case using Cons p by (cases r) simp_all
qed

lemma poll_ok_open: "createTestingSSE name r = (Inr (q, s0), r') \<Longrightarrow> poll_ok s0"
  by (auto simp: createTestingSSE_def poll_ok_def ids_in_order_Nil split: prod.splits sum.splits)

text \<open>
  C8. In every state of the system, whatever sessions run interleaved, each session's
  counter equals the number of frames it has written, and its frames, heartbeats and
  forwarded events alike, carry as ids the decimal strings of 0, 1, 2, ... in the order of
  the \<open>writeSSE\<close> calls; read back as numbers the ids are 0, 1, 2, ..., so they start at 0
  and go up by one per frame. This holds of each session of the system whatever the other
  sessions do, and of a polling session after any number of passes of its loop.
\<close>

theorem frame_ids_count_from_zero:
  "(\<forall>x \<in> set (sessions (steps es no_sessions)).
      l_eventId x = length (l_written x) \<and>
      map sse_id (l_written x) = map decimal_string [0..<length (l_written x)] \<and>
      map (\<lambda>f. id_value (sse_id f)) (l_written x) = [0..<length (l_written x)]) \<and>
   (createTestingSSE name r = (Inr (q, s0), r') \<longrightarrow>
      p_eventId (snd (testing_loop name ts s0)) = length (p_written (snd (testing_loop name ts s0))) \<and>
      map sse_id (p_written (snd (testing_loop name ts s0))) =
        map decimal_string [0..<length (p_written (snd (testing_loop name ts s0)))] \<and>
      map (\<lambda>f. id_value (sse_id f)) (p_written (snd (testing_loop name ts s0))) =
        [0..<length (p_written (snd (testing_loop name ts s0)))])"
proof -
  have "ids_inv (steps es no_sessions)" by (rule ids_inv_steps [OF ids_inv_init])
  then have ok: "\<forall>x \<in> set (sessions (steps es no_sessions)). session_ok x"
    by (auto simp: ids_inv_def in_set_conv_nth)
  have live: "\<forall>x \<in> set (sessions (steps es no_sessions)).
      l_eventId x = length (l_written x) \<and>
      map sse_id (l_written x) = map decimal_string [0..<length (l_written x)] \<and>
      map (\<lambda>f. id_value (sse_id f)) (l_written x) = [0..<length (l_written x)]"
  proof
    fix x assume "x \<in> set (sessions (steps es no_sessions))"
    then have x: "session_ok x" using ok by blast
    then have "ids_in_order (l_written x)" by (simp add: session_ok_def)
    then show "l_eventId x = length (l_written x) \<and>
      map sse_id (l_written x) = map decimal_string [0..<length (l_written x)] \<and>
      map (\<lambda>f. id_value (sse_id f)) (l_written x) = [0..<length (l_written x)]"
      using x ids_in_order_numbers [of "l_written x"]
      by (simp add: session_ok_def ids_in_order_def del: decimal_string.simps)
  qed
  have poll: "createTestingSSE name r = (Inr (q, s0), r') \<longrightarrow>
      p_eventId (snd (testing_loop name ts s0)) = length (p_written (snd (testing_loop name ts s0))) \<and>
      map sse_id (p_written (snd (testing_loop name ts s0))) =
        map decimal_string [0..<length (p_written (snd (testing_loop name ts s0)))] \<and>
      map (\<lambda>f. id_value (sse_id f)) (p_written (snd (testing_loop name ts s0))) =
        [0..<length (p_written (snd (testing_loop name ts s0)))]"
  proof
    assume "createTestingSSE name r = (Inr (q, s0), r')"
    then have "poll_ok s0" by (rule poll_ok_open)
    then have p: "poll_ok (snd (testing_loop name ts s0))" by (rule poll_ok_loop)
    then have "ids_in_order (p_written (snd (testing_loop name ts s0)))" by (simp add: poll_ok_def)
    then show "p_eventId (snd (testing_loop name ts s0)) = length (p_written (snd (testing_loop name ts s0))) \<and>
      map sse_id (p_written (snd (testing_loop name ts s0))) =
        map decimal_string [0..<length (p_written (snd (testing_loop name ts s0)))] \<and>
      map (\<lambda>f. id_value (sse_id f)) (p_written (snd (testing_loop name ts s0))) =
        [0..<length (p_written (snd (testing_loop name ts s0)))]"
      using p ids_in_order_numbers [of "p_written (snd (testing_loop name ts s0))"]
      by (simp add: poll_ok_def ids_in_order_def del: decimal_string.simps)
  qed
  from live poll show ?thesis by (rule conjI)
qed

lemmas live_defs = two_sessions_def two_opens_def aborted_session_def no_sessions_def
  no_subscriptions_def createLiveSSE_def acquireQueueEvents_def loop_top_def writeSSE_def
  emit_def handler_call_def eventTypes_def cleanup_def releaseQueueEvents_def Let_def digit_def
  listeners_of_def count_of_def conn1_def conn2_def

theorem frame_ids_count_from_zero_witness:
  "map event (l_written (sessions (steps two_sessions no_sessions) ! 0)) =
     [''heartbeat'', ''completed'', ''heartbeat''] \<and>
   map sse_id (l_written (sessions (steps two_sessions no_sessions) ! 0)) = [''0'', ''1'', ''2''] \<and>
   map event (l_written (sessions (steps two_sessions no_sessions) ! 1)) =
     [''heartbeat'', ''completed''] \<and>
   map sse_id (l_written (sessions (steps two_sessions no_sessions) ! 1)) = [''0'', ''1''] \<and>
   createTestingSSE ''emails'' example_registry =
     (Inr (0, open_session), snd (get ''emails'' example_registry)) \<and>
   map sse_id (p_written (snd (testing_loop ''emails''
       [quiet_tick busy_counts, quiet_tick one_change] open_session))) = [''0'', ''1'']"
proof -
  let ?S = "steps two_sessions no_sessions"
  let ?P = "snd (testing_loop ''emails'' [quiet_tick busy_counts, quiet_tick one_change] open_session)"
  have h: "createTestingSSE ''emails'' example_registry =
     (Inr (0, open_session), snd (get ''emails'' example_registry))"
    by (simp add: createTestingSSE_def get_def property_def example_registry_def example_config_def
          truthy_def createTestEntry_def alloc_def Let_def open_session_def)
  note T = frame_ids_count_from_zero [of two_sessions "''emails''" example_registry 0
      open_session "snd (get ''emails'' example_registry)"
      "[quiet_tick busy_counts, quiet_tick one_change]"]
  have len: "length (sessions ?S) = 2" by (simp add: live_defs)
  have ev0: "map event (l_written (sessions ?S ! 0)) = [''heartbeat'', ''completed'', ''heartbeat'']"
    by (simp add: live_defs)
  have ev1: "map event (l_written (sessions ?S ! 1)) = [''heartbeat'', ''completed'']"
    by (simp add: live_defs)
  have l0: "length (l_written (sessions ?S ! 0)) = 3" using ev0 by (metis length_map length_Cons list.size(3) numeral_3_eq_3)
  have l1: "length (l_written (sessions ?S ! 1)) = 2" using ev1 by (metis length_map length_Cons list.size(3) numeral_2_eq_2)
  have m0: "sessions ?S ! 0 \<in> set (sessions ?S)" using len by simp
  have m1: "sessions ?S ! 1 \<in> set (sessions ?S)" using len by simp
  have d3: "map decimal_string [0..<3] = [''0'', ''1'', ''2'']" by (simp add: upt_rec digit_def)
  have d2: "map decimal_string [0..<2] = [''0'', ''1'']" by (simp add: upt_rec digit_def)
  have i0: "map sse_id (l_written (sessions ?S ! 0)) = [''0'', ''1'', ''2'']"
    using T [THEN conjunct1, rule_format, OF m0] l0 d3 by simp
  have i1: "map sse_id (l_written (sessions ?S ! 1)) = [''0'', ''1'']"
    using T [THEN conjunct1, rule_format, OF m1] l1 d2 by simp
  have lp: "length (p_written ?P) = 2"
    by (simp add: poll_tick_def quiet_tick_def open_session_def busy_counts_def one_change_def
          initial_counts_def previous_def Let_def)
  have ip: "map sse_id (p_written ?P) = [''0'', ''1'']"
    using T [THEN conjunct2, rule_format, OF h] lp d2 by simp
  show ?thesis by (intro conjI) (fact ev0, fact i0, fact ev1, fact i1, fact h, fact ip)
qed

subsection \<open>Counting\<close>

lemma count_of_acquire:
  "count_of k (snd (acquireQueueEvents n c p m)) = count_of k m + (if k = n then 1 else 0)"
  by (cases "map_of (subscriptions m) n")
     (simp_all add: acquire_new acquire_existing count_of_def update_conv')

lemma count_of_release:
  "count_of k (releaseQueueEvents n m) =
     (if k = n then max 0 (count_of n m - 1) else count_of k m)"
proof (cases "map_of (subscriptions m) n")
  case None
  then show ?thesis by (simp add: release_absent count_of_def)
next
  case (Some e)
  show ?thesis
  proof (cases "1 < refCount e")
    case True
    then show ?thesis using Some by (simp add: release_shared count_of_def update_conv')
  next
    case False
    then have "refCount e \<le> 1" by simp
    then show ?thesis using Some by (simp add: release_last count_of_def delete_conv')
  qed
qed

lemma live_count_append: "live_count n (xs @ ys) = live_count n xs + live_count n ys"
  by (simp add: live_count_def)

lemma live_count_update:
  assumes "i < length xs"
  shows "live_count n (xs[i := y]) + (if live n (xs ! i) then 1 else 0) =
         live_count n xs + (if live n y then 1 else 0)"
proof -
  have a: "xs = take i xs @ xs ! i # drop (Suc i) xs" using assms by (rule id_take_nth_drop)
  have b: "xs[i := y] = take i xs @ y # drop (Suc i) xs" using assms by (rule upd_conv_take_nth_drop)
  have "live_count n xs =
          live_count n (take i xs) + (if live n (xs ! i) then 1 else 0) +
          live_count n (drop (Suc i) xs)"
    by (subst a) (simp add: live_count_def)
  moreover have "live_count n (xs[i := y]) =
          live_count n (take i xs) + (if live n y then 1 else 0) +
          live_count n (drop (Suc i) xs)"
    by (subst b) (simp add: live_count_def)
  ultimately show ?thesis by simp
qed

lemma live_count_same:
  assumes "same_sessions xs ys" shows "live_count n ys = live_count n xs"
proof -
  have "list_all2 (\<lambda>x y. live n y = live n x) xs ys"
    using assms by (simp add: same_sessions_def list_all2_conv_all_nth live_def)
  then show ?thesis
    by (induction rule: list_all2_induct) (simp_all add: live_count_def)
qed

subsection \<open>Removing listeners\<close>

lemma fold_remove1:
  "distinct zs \<Longrightarrow>
     distinct (fold (\<lambda>(ev, h). remove1 (q, ev, h)) ls zs) \<and>
     set (fold (\<lambda>(ev, h). remove1 (q, ev, h)) ls zs) = set zs - (\<lambda>(ev, h). (q, ev, h)) ` set ls"
proof (induction ls arbitrary: zs)
  case Nil
  then show ?case by simp
next
  case (Cons l ls)
  obtain ev h where l: "l = (ev, h)" by (cases l)
  have d: "distinct (remove1 (q, ev, h) zs)" using Cons.prems by simp
  have s: "set (remove1 (q, ev, h) zs) = set zs - {(q, ev, h)}" using Cons.prems by simp
  from Cons.IH [OF d] show ?case using l s by auto
qed

lemma same_sessions_update:
  assumes "i < length xs" "l_name y = l_name (xs ! i)" "l_queueEvents y = l_queueEvents (xs ! i)"
    "l_listeners y = l_listeners (xs ! i)" "(l_phase y = Done) = (l_phase (xs ! i) = Done)"
  shows "same_sessions xs (xs[i := y])"
  unfolding same_sessions_def
proof (intro conjI allI impI)
  show "length (xs[i := y]) = length xs" by simp
next
  fix j assume j: "j < length xs"
  show "l_name (xs[i := y] ! j) = l_name (xs ! j)"
    using assms j by (cases "j = i") simp_all
  show "l_queueEvents (xs[i := y] ! j) = l_queueEvents (xs ! j)"
    using assms j by (cases "j = i") simp_all
  show "l_listeners (xs[i := y] ! j) = l_listeners (xs ! j)"
    using assms j by (cases "j = i") simp_all
  show "(l_phase (xs[i := y] ! j) = Done) = (l_phase (xs ! j) = Done)"
    using assms j by (cases "j = i") simp_all
qed

lemma same_sessions_emit: "same_sessions (sessions s) (sessions (emit src ty args s))"
  unfolding same_sessions_def
proof (intro conjI allI impI)
  show "length (sessions (emit src ty args s)) = length (sessions s)" by (rule emit_sessions(1))
next
  fix i assume i: "i < length (sessions s)"
  from emit_sessions(2) [OF i] have w: "wrote (sessions s ! i) (sessions (emit src ty args s) ! i)" .
  show "l_name (sessions (emit src ty args s) ! i) = l_name (sessions s ! i)"
    using w by (simp add: wrote_def)
  show "l_queueEvents (sessions (emit src ty args s) ! i) = l_queueEvents (sessions s ! i)"
    using w by (simp add: wrote_def)
  show "l_listeners (sessions (emit src ty args s) ! i) = l_listeners (sessions s ! i)"
    using w by (simp add: wrote_def)
  show "(l_phase (sessions (emit src ty args s) ! i) = Done) = (l_phase (sessions s ! i) = Done)"
    using w by (simp add: wrote_def)
qed

lemma sys_inv_same:
  assumes "sys_inv s" "attached s' = attached s" "mux s' = mux s"
    "same_sessions (sessions s) (sessions s')"
  shows "sys_inv s'"
proof -
  have c: "count_inv s'"
    using assms(1,3) live_count_same [OF assms(4)] by (simp add: sys_inv_def count_inv_def)
  have a: "attach_inv s'"
    using assms(1,2,4) unfolding sys_inv_def attach_inv_def same_sessions_def
    by (metis (no_types, lifting))
  from a c show ?thesis by (simp add: sys_inv_def)
qed

lemma cleanup_fields:
  "mux (cleanup sid s) = releaseQueueEvents (l_name (sessions s ! sid)) (mux s)"
  "sessions (cleanup sid s) = (sessions s)[sid := (sessions s ! sid)\<lparr>l_phase := Done\<rparr>]"
  "attached (cleanup sid s) =
     fold (\<lambda>(ev, h). remove1 (l_queueEvents (sessions s ! sid), ev, h))
       (l_listeners (sessions s ! sid)) (attached s)"
  by (simp_all add: cleanup_def Let_def)

lemma attached_cleanup:
  assumes "attach_inv s"
  shows "distinct (attached (cleanup sid s))"
    and "set (attached (cleanup sid s)) =
           set (attached s) -
           (\<lambda>(ev, h). (l_queueEvents (sessions s ! sid), ev, h)) ` set (l_listeners (sessions s ! sid))"
  using fold_remove1 [of "attached s" "l_queueEvents (sessions s ! sid)" "l_listeners (sessions s ! sid)"]
    assms
  by (simp_all add: cleanup_fields(3) attach_inv_def)

lemma cleanup_no_listener:
  assumes "attach_inv s" "(q, ev, (sid, t)) \<in> set (attached s)"
  shows "(q, ev, (sid, t)) \<notin> set (attached (cleanup sid s))"
proof -
  have "q = l_queueEvents (sessions s ! sid)"
    and "(ev, (sid, t)) \<in> set (l_listeners (sessions s ! sid))"
    using assms unfolding attach_inv_def by blast+
  then have "(q, ev, (sid, t)) \<in>
      (\<lambda>(ev, h). (l_queueEvents (sessions s ! sid), ev, h)) ` set (l_listeners (sessions s ! sid))"
    by force
  then show ?thesis using attached_cleanup(2) [OF assms(1), of sid] by simp
qed

lemma attach_inv_cleanup:
  assumes "attach_inv s" "sid < length (sessions s)"
  shows "attach_inv (cleanup sid s)"
  unfolding attach_inv_def
proof (intro conjI allI impI)
  show "distinct (attached (cleanup sid s))" by (rule attached_cleanup(1) [OF assms(1)])
next
  fix q ev i t
  assume m: "(q, ev, (i, t)) \<in> set (attached (cleanup sid s))"
  then have old: "(q, ev, (i, t)) \<in> set (attached s)"
    using attached_cleanup(2) [OF assms(1), of sid] by simp
  then have ne: "i \<noteq> sid" using cleanup_no_listener [OF assms(1)] m by blast
  have p: "i < length (sessions s)" "q = l_queueEvents (sessions s ! i)"
    "(ev, (i, t)) \<in> set (l_listeners (sessions s ! i))" "l_phase (sessions s ! i) \<noteq> Done"
    using assms(1) old unfolding attach_inv_def by blast+
  show "i < length (sessions (cleanup sid s))" using p(1) by (simp add: cleanup_fields(2))
  show "q = l_queueEvents (sessions (cleanup sid s) ! i)"
    using p(2) ne by (simp add: cleanup_fields(2))
  show "(ev, (i, t)) \<in> set (l_listeners (sessions (cleanup sid s) ! i))"
    using p(3) ne by (simp add: cleanup_fields(2))
  show "l_phase (sessions (cleanup sid s) ! i) \<noteq> Done"
    using p(4) ne by (simp add: cleanup_fields(2))
qed

lemma listeners_of_cleanup:
  assumes "attach_inv s" shows "listeners_of sid (cleanup sid s) = []"
proof -
  have "\<forall>a \<in> set (attached (cleanup sid s)). \<not> (case a of (q, ev, (i, t)) \<Rightarrow> i = sid)"
  proof
    fix a assume a: "a \<in> set (attached (cleanup sid s))"
    obtain q ev i t where e: "a = (q, ev, (i, t))" by (cases a) auto
    have "a \<in> set (attached s)" using a attached_cleanup(2) [OF assms, of sid] by simp
    then have "i \<noteq> sid" using cleanup_no_listener [OF assms, of q ev sid t] a e by blast
    then show "\<not> (case a of (q, ev, (i, t)) \<Rightarrow> i = sid)" using e by simp
  qed
  then show ?thesis unfolding listeners_of_def by (simp add: filter_empty_conv)
qed

lemma count_inv_cleanup:
  assumes "count_inv s" "sid < length (sessions s)" "l_phase (sessions s ! sid) \<noteq> Done"
  shows "count_inv (cleanup sid s)"
  unfolding count_inv_def
proof
  fix k
  let ?x = "sessions s ! sid"
  have u: "live_count k ((sessions s)[sid := ?x\<lparr>l_phase := Done\<rparr>]) +
             (if live k ?x then 1 else 0) =
           live_count k (sessions s) + (if live k (?x\<lparr>l_phase := Done\<rparr>) then 1 else 0)"
    by (rule live_count_update [OF assms(2)])
  have dead: "\<not> live k (?x\<lparr>l_phase := Done\<rparr>)" by (simp add: live_def)
  have c: "count_of k (mux s) = int (live_count k (sessions s))"
    using assms(1) by (simp add: count_inv_def)
  have cn: "count_of (l_name ?x) (mux s) = int (live_count (l_name ?x) (sessions s))"
    using assms(1) by (simp add: count_inv_def)
  show "count_of k (mux (cleanup sid s)) = int (live_count k (sessions (cleanup sid s)))"
  proof (cases "k = l_name ?x")
    case True
    then have "live k ?x" using assms(3) by (simp add: live_def)
    then show ?thesis using u dead c True
      by (simp add: cleanup_fields count_of_release)
  next
    case False
    then have "\<not> live k ?x" by (simp add: live_def)
    then show ?thesis using u dead c False
      by (simp add: cleanup_fields count_of_release)
  qed
qed

lemma sys_inv_cleanup:
  "sys_inv s \<Longrightarrow> sid < length (sessions s) \<Longrightarrow> l_phase (sessions s ! sid) \<noteq> Done
     \<Longrightarrow> sys_inv (cleanup sid s)"
  by (simp add: sys_inv_def attach_inv_cleanup count_inv_cleanup)

lemma sys_inv_update:
  assumes "sys_inv s" "sid < length (sessions s)"
    "l_name y = l_name (sessions s ! sid)" "l_queueEvents y = l_queueEvents (sessions s ! sid)"
    "l_listeners y = l_listeners (sessions s ! sid)"
    "(l_phase y = Done) = (l_phase (sessions s ! sid) = Done)"
  shows "sys_inv (s\<lparr>sessions := (sessions s)[sid := y]\<rparr>)"
  by (rule sys_inv_same [OF assms(1)])
     (simp_all add: same_sessions_update [OF assms(2,3,4,5,6)])

lemma sys_inv_loop_top:
  assumes "sys_inv s" "sid < length (sessions s)" "l_phase (sessions s ! sid) \<noteq> Done"
  shows "sys_inv (loop_top now sid s)"
proof (cases "l_running (sessions s ! sid)")
  case False
  then show ?thesis using assms by (simp add: loop_top_def Let_def sys_inv_cleanup)
next
  case True
  have "sys_inv (s\<lparr>sessions := (sessions s)
          [sid := (writeSSE ''heartbeat'' (HeartbeatData now) (sessions s ! sid))
                    \<lparr>l_phase := AwaitWrite\<rparr>]\<rparr>)"
    by (rule sys_inv_update [OF assms(1,2)]) (simp_all add: writeSSE_def assms(3))
  then show ?thesis using True by (simp add: loop_top_def Let_def)
qed

lemma distinct_eventTypes: "distinct eventTypes"
  by (simp add: eventTypes_def)

lemma sys_inv_create:
  assumes "sys_inv s" shows "sys_inv (createLiveSSE name conn pre now s)"
proof (cases conn)
  case None
  then show ?thesis using assms by (simp add: createLiveSSE_def)
next
  case (Some c)
  obtain qe m where a: "acquireQueueEvents name c pre (mux s) = (qe, m)"
    by (cases "acquireQueueEvents name c pre (mux s)")
  let ?n = "length (sessions s)"
  let ?hs = "map (\<lambda>t. (t, (?n, t))) eventTypes"
  let ?x = "\<lparr>l_name = name, l_queueEvents = qe, l_eventId = 0, l_running = True,
             l_listeners = ?hs, l_written = [], l_phase = AwaitWrite\<rparr>"
  let ?new = "map (\<lambda>(t, h). (qe, t, h)) ?hs"
  let ?s1 = "s\<lparr>mux := m, attached := attached s @ ?new, sessions := sessions s @ [?x]\<rparr>"
  have new: "set ?new = (\<lambda>t. (qe, t, (?n, t))) ` set eventTypes" by auto
  have old: "\<And>q ev i t. (q, ev, (i, t)) \<in> set (attached s) \<Longrightarrow>
      i < ?n \<and> q = l_queueEvents (sessions s ! i) \<and>
      (ev, (i, t)) \<in> set (l_listeners (sessions s ! i)) \<and> l_phase (sessions s ! i) \<noteq> Done"
    using assms unfolding sys_inv_def attach_inv_def by blast
  have d_old: "distinct (attached s)" using assms by (simp add: sys_inv_def attach_inv_def)
  have d_new: "distinct ?new"
    using distinct_eventTypes by (simp add: distinct_map inj_on_def comp_def)
  have disj: "set (attached s) \<inter> set ?new = {}"
  proof (rule ccontr)
    assume "set (attached s) \<inter> set ?new \<noteq> {}"
    then obtain z where z: "z \<in> set (attached s)" "z \<in> set ?new" by blast
    from z(2) new obtain t where "z = (qe, t, (?n, t))" by auto
    with z(1) old [of qe t ?n t] show False by simp
  qed
  have att: "attach_inv ?s1"
    unfolding attach_inv_def
  proof (intro conjI allI impI)
    show "distinct (attached ?s1)" using d_old d_new disj by simp
  next
    fix q ev i t
    assume "(q, ev, (i, t)) \<in> set (attached ?s1)"
    then consider (o) "(q, ev, (i, t)) \<in> set (attached s)" | (n) "(q, ev, (i, t)) \<in> set ?new"
      by auto
    then have "i < length (sessions ?s1) \<and> q = l_queueEvents (sessions ?s1 ! i) \<and>
       (ev, (i, t)) \<in> set (l_listeners (sessions ?s1 ! i)) \<and> l_phase (sessions ?s1 ! i) \<noteq> Done"
    proof cases
      case o
      then show ?thesis using old [OF o] by (simp add: nth_append)
    next
      case n
      then have "q = qe" "i = ?n" "ev = t" "t \<in> set eventTypes" using new by auto
      then show ?thesis by (simp add: nth_append)
    qed
    then show "i < length (sessions ?s1)" "q = l_queueEvents (sessions ?s1 ! i)"
       "(ev, (i, t)) \<in> set (l_listeners (sessions ?s1 ! i))" "l_phase (sessions ?s1 ! i) \<noteq> Done"
      by blast+
  qed
  have m: "m = snd (acquireQueueEvents name c pre (mux s))" using a by simp
  have cnt: "count_inv ?s1"
    unfolding count_inv_def
  proof
    fix k
    have "count_of k (mux s) = int (live_count k (sessions s))"
      using assms by (simp add: sys_inv_def count_inv_def)
    then show "count_of k (mux ?s1) = int (live_count k (sessions ?s1))"
      by (simp add: m count_of_acquire live_count_append) (simp add: live_count_def live_def)
  qed
  have "sys_inv ?s1" using att cnt by (simp add: sys_inv_def)
  then have "sys_inv (loop_top now ?n ?s1)"
    by (rule sys_inv_loop_top) simp_all
  then show ?thesis using Some a by (simp add: createLiveSSE_def Let_def)
qed

lemma sys_inv_step: assumes "sys_inv s" shows "sys_inv (step e s)"
proof (cases e)
  case (Open name conn pre now)
  then show ?thesis using assms by (simp add: sys_inv_create)
next
  case (Emit src ty args)
  have "sys_inv (emit src ty args s)"
    by (rule sys_inv_same [OF assms])
       (simp_all add: emit_sessions(3,4) same_sessions_emit)
  then show ?thesis using Emit by simp
next
  case (Abort sid)
  show ?thesis
  proof (cases "sid < length (sessions s)")
    case True
    have "sys_inv (s\<lparr>sessions := (sessions s)[sid := (sessions s ! sid)\<lparr>l_running := False\<rparr>]\<rparr>)"
      by (rule sys_inv_update [OF assms True]) simp_all
    then show ?thesis using Abort True by simp
  next
    case False
    then show ?thesis using Abort assms by simp
  qed
next
  case (WriteSettled sid ok)
  show ?thesis
  proof (cases "sid < length (sessions s) \<and> l_phase (sessions s ! sid) = AwaitWrite")
    case True
    then have l: "sid < length (sessions s)" and p: "l_phase (sessions s ! sid) \<noteq> Done" by simp_all
    have a: "sys_inv (s\<lparr>sessions := (sessions s)[sid := (sessions s ! sid)\<lparr>l_phase := Sleeping\<rparr>]\<rparr>)"
      by (rule sys_inv_update [OF assms l]) (simp_all add: p)
    have b: "sys_inv (cleanup sid s)" by (rule sys_inv_cleanup [OF assms l p])
    show ?thesis using WriteSettled True a b by simp
  next
    case False
    then show ?thesis using WriteSettled assms by auto
  qed
next
  case (SleepSettled sid ok now)
  show ?thesis
  proof (cases "sid < length (sessions s) \<and> l_phase (sessions s ! sid) = Sleeping")
    case True
    then have l: "sid < length (sessions s)" and p: "l_phase (sessions s ! sid) \<noteq> Done" by simp_all
    have a: "sys_inv (loop_top now sid s)" by (rule sys_inv_loop_top [OF assms l p])
    have b: "sys_inv (cleanup sid s)" by (rule sys_inv_cleanup [OF assms l p])
    show ?thesis using SleepSettled True a b by simp
  next
    case False
    then show ?thesis using SleepSettled assms by auto
  qed
qed

lemma sys_inv_steps: "sys_inv s \<Longrightarrow> sys_inv (steps es s)"
  by (induction es arbitrary: s) (simp_all add: sys_inv_step)

lemma sys_inv_init: "sys_inv no_sessions"
  by (simp add: sys_inv_def attach_inv_def count_inv_def no_sessions_def no_subscriptions_def
        count_of_def live_count_def)

lemma phase_cleanup:
  "sid < length (sessions s) \<Longrightarrow> l_phase (sessions (cleanup sid s) ! sid) = Done"
  by (simp add: cleanup_fields(2))

lemma nth_cleanup_other:
  "i \<noteq> sid \<Longrightarrow> sessions (cleanup i s) ! sid = sessions s ! sid"
  by (simp add: cleanup_fields(2))

lemma nth_loop_top_other:
  "i \<noteq> sid \<Longrightarrow> sessions (loop_top now i s) ! sid = sessions s ! sid"
  by (simp add: loop_top_def Let_def nth_cleanup_other)

lemma loop_top_running:
  "l_running (sessions s ! sid) \<Longrightarrow> sid < length (sessions s) \<Longrightarrow>
     l_phase (sessions (loop_top now sid s) ! sid) = AwaitWrite"
  by (simp add: loop_top_def Let_def)

lemma loop_top_aborted:
  "\<not> l_running (sessions s ! sid) \<Longrightarrow> loop_top now sid s = cleanup sid s"
  by (simp add: loop_top_def Let_def)

lemma nth_create:
  assumes "sid < length (sessions s)"
  shows "sessions (createLiveSSE name conn pre now s) ! sid = sessions s ! sid"
proof (cases conn)
  case None
  then show ?thesis by (simp add: createLiveSSE_def)
next
  case (Some c)
  obtain qe m where a: "acquireQueueEvents name c pre (mux s) = (qe, m)"
    by (cases "acquireQueueEvents name c pre (mux s)")
  have ne: "length (sessions s) \<noteq> sid" using assms by simp
  show ?thesis
    using Some a assms
    by (simp add: createLiveSSE_def Let_def nth_loop_top_other [OF ne] nth_append)
qed

lemma phase_emit:
  "sid < length (sessions s) \<Longrightarrow>
     l_phase (sessions (emit src ty args s) ! sid) = l_phase (sessions s ! sid)"
  using emit_sessions(2) [of sid s src ty args] by (simp add: wrote_def)

lemma terminates_cleanup:
  assumes "terminates e sid s" shows "step e s = cleanup sid s"
proof -
  have l: "sid < length (sessions s)" and p: "l_phase (sessions s ! sid) \<noteq> Done"
    and d: "l_phase (sessions (step e s) ! sid) = Done"
    using assms by (simp_all add: terminates_def)
  show ?thesis
  proof (cases e)
    case (Open name conn pre now)
    then show ?thesis using d p nth_create [OF l] by simp
  next
    case (Emit src ty args)
    then show ?thesis using d p phase_emit [OF l] by simp
  next
    case (Abort i)
    then show ?thesis using d p l by (cases "i = sid") (auto split: if_splits)
  next
    case (WriteSettled i ok)
    show ?thesis
    proof (cases "i = sid")
      case True
      then show ?thesis using WriteSettled d p l by (cases ok) (auto split: if_splits)
    next
      case False
      then show ?thesis using WriteSettled d p l
        by (cases ok) (auto simp: nth_cleanup_other split: if_splits)
    qed
  next
    case (SleepSettled i ok now)
    show ?thesis
    proof (cases "i = sid")
      case True
      show ?thesis
      proof (cases "l_running (sessions s ! sid)")
        case running: True
        then show ?thesis using SleepSettled d p l \<open>i = sid\<close> loop_top_running [OF running l, of now]
          by (cases ok) (auto split: if_splits)
      next
        case False
        then show ?thesis using SleepSettled d p l \<open>i = sid\<close>
          by (cases ok) (auto simp: loop_top_aborted split: if_splits)
      qed
    next
      case False
      then show ?thesis using SleepSettled d p l
        by (cases ok) (auto simp: nth_cleanup_other nth_loop_top_other split: if_splits)
    qed
  qed
qed

lemma exits:
  assumes "sid < length (sessions s)"
  shows "l_phase (sessions s ! sid) = AwaitWrite \<Longrightarrow> terminates (WriteSettled sid False) sid s"
    and "l_phase (sessions s ! sid) = Sleeping \<Longrightarrow> terminates (SleepSettled sid False now) sid s"
    and "l_phase (sessions s ! sid) = Sleeping \<Longrightarrow> \<not> l_running (sessions s ! sid) \<Longrightarrow>
           terminates (SleepSettled sid True now) sid s"
  using assms by (simp_all add: terminates_def phase_cleanup loop_top_aborted)

lemma done_stays:
  assumes "sid < length (sessions s)" "l_phase (sessions s ! sid) = Done"
  shows "l_phase (sessions (step e s) ! sid) = Done"
proof (cases e)
  case (Open name conn pre now)
  then show ?thesis using assms nth_create [OF assms(1)] by simp
next
  case (Emit src ty args)
  then show ?thesis using assms phase_emit [OF assms(1)] by simp
next
  case (Abort i)
  then show ?thesis using assms by (cases "i = sid") auto
next
  case (WriteSettled i ok)
  then show ?thesis using assms
    by (cases "i = sid"; cases ok) (auto simp: nth_cleanup_other)
next
  case (SleepSettled i ok now)
  then show ?thesis using assms
    by (cases "i = sid"; cases ok) (auto simp: nth_cleanup_other nth_loop_top_other)
qed

lemma mux_step:
  "mux (step e s) = mux s \<or> (\<exists>i. terminates e i s) \<or>
   (\<exists>name c pre now. e = Open name (Some c) pre now)"
proof (cases e)
  case (Open name conn pre now)
  then show ?thesis by (cases conn) (simp_all add: createLiveSSE_def)
next
  case (Emit src ty args)
  then show ?thesis by (simp add: emit_sessions(4))
next
  case (Abort i)
  then show ?thesis by simp
next
  case (WriteSettled i ok)
  show ?thesis
  proof (cases "i < length (sessions s) \<and> l_phase (sessions s ! i) = AwaitWrite")
    case True
    then have "terminates (WriteSettled i False) i s" using exits(1) by blast
    then show ?thesis using WriteSettled True by (cases ok) auto
  next
    case False
    then show ?thesis using WriteSettled by auto
  qed
next
  case (SleepSettled i ok now)
  show ?thesis
  proof (cases "i < length (sessions s) \<and> l_phase (sessions s ! i) = Sleeping")
    case True
    then have l: "i < length (sessions s)" and p: "l_phase (sessions s ! i) = Sleeping" by simp_all
    show ?thesis
    proof (cases "ok \<and> l_running (sessions s ! i)")
      case True
      then show ?thesis using SleepSettled l p by (simp add: loop_top_def Let_def)
    next
      case False
      then have "terminates (SleepSettled i ok now) i s"
        using exits(2,3) [OF l p, of now] by (cases ok) auto
      then show ?thesis using SleepSettled by blast
    qed
  next
    case False
    then show ?thesis using SleepSettled by auto
  qed
qed

lemma done_no_listeners:
  assumes "attach_inv s" "sid < length (sessions s)" "l_phase (sessions s ! sid) = Done"
  shows "listeners_of sid s = []"
proof -
  have "\<forall>a \<in> set (attached s). \<not> (case a of (q, ev, (i, t)) \<Rightarrow> i = sid)"
  proof
    fix a assume a: "a \<in> set (attached s)"
    obtain q ev i t where e: "a = (q, ev, (i, t))" by (cases a) auto
    have "l_phase (sessions s ! i) \<noteq> Done" using assms(1) a e unfolding attach_inv_def by blast
    then have "i \<noteq> sid" using assms(3) by auto
    then show "\<not> (case a of (q, ev, (i, t)) \<Rightarrow> i = sid)" using e by simp
  qed
  then show ?thesis unfolding listeners_of_def by (simp add: filter_empty_conv)
qed

lemma release_decrements:
  assumes "count_inv s" "sid < length (sessions s)" "l_phase (sessions s ! sid) \<noteq> Done"
  shows "count_of (l_name (sessions s ! sid))
           (releaseQueueEvents (l_name (sessions s ! sid)) (mux s)) =
         count_of (l_name (sessions s ! sid)) (mux s) - 1"
proof -
  let ?n = "l_name (sessions s ! sid)"
  have "sessions s ! sid \<in> set (filter (live ?n) (sessions s))"
    using assms(2,3) by (simp add: live_def)
  then have "0 < live_count ?n (sessions s)"
    unfolding live_count_def by (metis length_pos_if_in_set)
  then have "1 \<le> count_of ?n (mux s)" using assms(1) by (simp add: count_inv_def)
  then show ?thesis by (simp add: count_of_release)
qed

text \<open>
  C9. In every reachable state, for a live-mode session: a rejected heartbeat write, a
  rejected sleep, and a sleep that resolves after the client has aborted each terminate
  the session; whatever event terminates it, none of the session's listeners remains
  attached to any source afterwards, the multiplexer is the old one after exactly one
  \<open>release\<close> of the session's queue name, and the count of that name has gone down by
  one; a terminated session has no listener attached and stays terminated; the multiplexer
  changes only when a session opens or terminates; and its count for a name is the number
  of sessions live on that name.
\<close>

theorem cleanup_on_every_exit:
  assumes "sid < length (sessions (steps es no_sessions))"
  shows "(let s = steps es no_sessions; x = sessions s ! sid in
          (l_phase x = AwaitWrite \<longrightarrow> terminates (WriteSettled sid False) sid s) \<and>
          (l_phase x = Sleeping \<longrightarrow> terminates (SleepSettled sid False now) sid s) \<and>
          (l_phase x = Sleeping \<and> \<not> l_running x \<longrightarrow>
             terminates (SleepSettled sid True now) sid s) \<and>
          (\<forall>e. terminates e sid s \<longrightarrow>
             listeners_of sid (step e s) = [] \<and>
             mux (step e s) = releaseQueueEvents (l_name x) (mux s) \<and>
             count_of (l_name x) (mux (step e s)) = count_of (l_name x) (mux s) - 1) \<and>
          (l_phase x = Done \<longrightarrow>
             listeners_of sid s = [] \<and> (\<forall>e. l_phase (sessions (step e s) ! sid) = Done)) \<and>
          (\<forall>e. mux (step e s) = mux s \<or> (\<exists>i. terminates e i s) \<or>
                (\<exists>name c pre t. e = Open name (Some c) pre t)) \<and>
          (\<forall>n. count_of n (mux s) =
                int (length (filter (\<lambda>y. l_name y = n \<and> l_phase y \<noteq> Done) (sessions s)))))"
proof -
  define s where "s = steps es no_sessions"
  define x where "x = sessions s ! sid"
  have l: "sid < length (sessions s)" using assms by (simp add: s_def)
  have inv: "sys_inv s" unfolding s_def by (rule sys_inv_steps [OF sys_inv_init])
  then have att: "attach_inv s" and cnt: "count_inv s" by (simp_all add: sys_inv_def)
  have e1: "l_phase x = AwaitWrite \<longrightarrow> terminates (WriteSettled sid False) sid s"
    using exits(1) [OF l] by (simp add: x_def)
  have e2: "l_phase x = Sleeping \<longrightarrow> terminates (SleepSettled sid False now) sid s"
    using exits(2) [OF l] by (simp add: x_def)
  have e3: "l_phase x = Sleeping \<and> \<not> l_running x \<longrightarrow>
             terminates (SleepSettled sid True now) sid s"
    using exits(3) [OF l] by (simp add: x_def)
  have t: "listeners_of sid (step e s) = [] \<and>
           mux (step e s) = releaseQueueEvents (l_name x) (mux s) \<and>
           count_of (l_name x) (mux (step e s)) = count_of (l_name x) (mux s) - 1"
    if "terminates e sid s" for e
  proof -
    have c: "step e s = cleanup sid s" using that by (rule terminates_cleanup)
    have p: "l_phase (sessions s ! sid) \<noteq> Done" using that by (simp add: terminates_def)
    show ?thesis
      unfolding c x_def
      using listeners_of_cleanup [OF att, of sid] release_decrements [OF cnt l p]
      by (simp add: cleanup_fields(1))
  qed
  have d: "l_phase x = Done \<longrightarrow>
             listeners_of sid s = [] \<and> (\<forall>e. l_phase (sessions (step e s) ! sid) = Done)"
    using done_no_listeners [OF att l] done_stays [OF l] by (simp add: x_def)
  have m: "\<forall>e. mux (step e s) = mux s \<or> (\<exists>i. terminates e i s) \<or>
                (\<exists>name c pre t. e = Open name (Some c) pre t)"
    using mux_step by blast
  have k: "\<forall>n. count_of n (mux s) =
                int (length (filter (\<lambda>y. l_name y = n \<and> l_phase y \<noteq> Done) (sessions s)))"
    using cnt by (simp add: count_inv_def live_count_def live_def [abs_def])
  from e1 e2 e3 t d m k show ?thesis
    unfolding Let_def s_def [symmetric] x_def [symmetric] by blast
qed

theorem cleanup_on_every_exit_witness:
  "0 < length (sessions (steps two_opens no_sessions)) \<and>
   l_phase (sessions (steps two_opens no_sessions) ! 0) = AwaitWrite \<and>
   length (listeners_of 0 (steps two_opens no_sessions)) = 6 \<and>
   count_of ''emails'' (mux (steps two_opens no_sessions)) = 2 \<and>
   terminates (WriteSettled 0 False) 0 (steps two_opens no_sessions) \<and>
   listeners_of 0 (step (WriteSettled 0 False) (steps two_opens no_sessions)) = [] \<and>
   count_of ''emails'' (mux (step (WriteSettled 0 False) (steps two_opens no_sessions))) = 1 \<and>
   \<not> l_running (sessions (steps aborted_session no_sessions) ! 0) \<and>
   terminates (SleepSettled 0 True 15100) 0 (steps aborted_session no_sessions) \<and>
   listeners_of 0 (step (SleepSettled 0 True 15100) (steps aborted_session no_sessions)) = [] \<and>
   source_closes (mux (step (SleepSettled 0 True 15100) (steps aborted_session no_sessions))) = [0]"
proof -
  let ?S = "steps two_opens no_sessions"
  let ?A = "steps aborted_session no_sessions"
  have l: "0 < length (sessions ?S)" by (simp add: live_defs)
  have p: "l_phase (sessions ?S ! 0) = AwaitWrite" by (simp add: live_defs)
  have six: "length (listeners_of 0 ?S) = 6" by (simp add: live_defs)
  have n: "l_name (sessions ?S ! 0) = ''emails''" by (simp add: live_defs)
  have c: "count_of ''emails'' (mux ?S) = 2" by (simp add: live_defs)
  note T = cleanup_on_every_exit [OF l, of 0, unfolded Let_def]
  note t1 = T [THEN conjunct1, rule_format, OF p]
  note t4 = T [THEN conjunct2, THEN conjunct2, THEN conjunct2, THEN conjunct1, rule_format, OF t1]
  have c': "count_of ''emails'' (mux (step (WriteSettled 0 False) ?S)) = 1"
    using t4 [THEN conjunct2, THEN conjunct2] n c by simp
  have la: "0 < length (sessions ?A)" by (simp add: live_defs)
  have pa: "l_phase (sessions ?A ! 0) = Sleeping \<and> \<not> l_running (sessions ?A ! 0)"
    by (simp add: live_defs)
  note A = cleanup_on_every_exit [OF la, of 15100, unfolded Let_def]
  note a3 = A [THEN conjunct2, THEN conjunct2, THEN conjunct1, rule_format, OF pa]
  note a4 = A [THEN conjunct2, THEN conjunct2, THEN conjunct2, THEN conjunct1, rule_format, OF a3]
  have na: "l_name (sessions ?A ! 0) = ''emails''" by (simp add: live_defs)
  have ma: "releaseQueueEvents ''emails'' (mux ?A) =
      \<lparr>subscriptions = [],
       sources = [\<lparr>qe_name = ''emails'', qe_connection = conn1, qe_prefix = None\<rparr>],
       source_closes = [0]\<rparr>"
    by (simp add: live_defs)
  have closes: "source_closes (mux (step (SleepSettled 0 True 15100) ?A)) = [0]"
    using a4 [THEN conjunct2, THEN conjunct1] na ma by simp
  show ?thesis
    by (intro conjI)
       (fact l, fact p, fact six, fact c, fact t1, fact t4 [THEN conjunct1], fact c',
        fact pa [THEN conjunct2], fact a3, fact a4 [THEN conjunct1], fact closes)
qed

end
